theory Spec2Isabelle
  imports Main "HOL-Library.AList"
begin

section \<open>Data model of a ComfyUI workflow\<close>

text \<open>
  The workflow handed to \<open>convert_setget_to_hardlines\<close> is a value loaded from JSON, so it
  is a tree: no object occurs twice in it.  Identifiers, names and type tags are JSON
  scalars (hashable in Python, so usable as dictionary keys).
\<close>

datatype val = VNone | VInt int | VStr string

text \<open>Free-form metadata, as found under the \<open>extra\<close> key.  An object is an association
  list in insertion order, as a Python dict is.\<close>

datatype json =
    JNull
  | JBool bool
  | JInt int
  | JStr string
  | JList "json list"
  | JObj "(string \<times> json) list"

text \<open>The exceptions the function can raise.  \<open>MalformedGraph\<close> is the \<open>ValueError\<close> the
  function raises itself at line 88 (the specification calls it MalformedGraph).
  \<open>ValueError\<close> is the one Python raises when an array that does not have six elements is
  unpacked into six names (lines 131 and 177).  \<open>IndexError\<close> comes from indexing an array
  past its end (lines 92 and 157-159), \<open>KeyError\<close> from \<open>n['id']\<close>, \<open>TypeError\<close> from
  iterating over or measuring \<open>None\<close> and from assigning into a report that is no dict,
  \<open>AttributeError\<close> from calling \<open>setdefault\<close> on an \<open>extra\<close> that is no dict.\<close>

datatype error = MalformedGraph | ValueError | KeyError | IndexError | AttributeError | TypeError

text \<open>A dict entry that is meant to hold a list and is read without a test for null:
  the key is missing, it holds null, or it holds a list.\<close>

datatype 'a entry = Absent | Null | Present 'a

text \<open>An input port: \<open>inp.get('link')\<close> is \<open>VNone\<close> when the key is absent or null.\<close>

record in_port =
  in_link :: val

text \<open>An output port: \<open>out.get('links')\<close> is \<open>None\<close> when the key is absent or null.\<close>

record out_port =
  out_links :: "val list option"

text \<open>A node.  \<open>node_id\<close> is \<open>None\<close> when the dict has no \<open>'id'\<close> key (\<open>n['id']\<close> then raises
  KeyError); \<open>node_type\<close> is \<open>n.get('type')\<close>; \<open>widgets_values\<close> and \<open>inputs\<close> are \<open>None\<close> when
  the key is absent or null (the function reads both with \<open>or\<close> and \<open>not\<close>, which treat the
  two alike).  \<open>outputs\<close> is read with \<open>n.get('outputs', [])\<close>, which gives \<open>[]\<close> for a
  missing key and \<open>None\<close> for null.\<close>

record node =
  node_id :: "val option"
  node_type :: val
  widgets_values :: "val list option"
  inputs :: "in_port list option"
  outputs :: "out_port list entry"

text \<open>A link is an array, meant to be \<open>[id, from_node, from_slot, to_node, to_slot, type]\<close>
  (comment at line 91).  The record holds what stands at the first six positions, and
  \<open>l_len\<close>, the number of elements the array has.  When the array has fewer than six
  elements the fields of the positions it lacks carry no information; elements after the
  sixth are never read or written and are left out.\<close>

record link =
  l_id :: val
  from_node :: val
  from_slot :: int
  to_node :: val
  to_slot :: int
  ltype :: val
  l_len :: nat

text \<open>The top-level dict: \<open>'nodes'\<close> and \<open>'links'\<close> may be missing or null; \<open>'extra'\<close> may be
  missing (\<open>None\<close>) or hold any JSON value.\<close>

record workflow =
  wf_nodes :: "node list entry"
  wf_links :: "link list entry"
  wf_extra :: "json option"

type_synonym source = "val \<times> int \<times> val"
type_synonym conflict = "val \<times> source \<times> source \<times> val"

text \<open>The mutable objects of the copied workflow during the read-port pass: the node
  objects and the link objects, each addressed by its position in \<open>wf['nodes']\<close> and
  \<open>wf['links']\<close>, and the two lists the pass appends to.\<close>

record gstate =
  st_nodes :: "node list"
  st_links :: "link list"
  rewired :: "(val \<times> val \<times> val \<times> val) list"
  skipped_gets :: "(val \<times> val) list"

section \<open>The conversion\<close>

text \<open>A \<open>for\<close> loop whose body may raise: the first exception ends the loop.\<close>

fun for_each :: "('a \<Rightarrow> 's \<Rightarrow> error + 's) \<Rightarrow> 'a list \<Rightarrow> 's \<Rightarrow> error + 's" where
  "for_each f [] s = Inr s"
| "for_each f (x # xs) s =
     (case f x s of Inl e \<Rightarrow> Inl e | Inr s' \<Rightarrow> for_each f xs s')"

text \<open>Python truthiness of a scalar (\<open>not name\<close>).\<close>

fun truthy :: "val \<Rightarrow> bool" where
  "truthy VNone = False"
| "truthy (VInt i) = (i \<noteq> 0)"
| "truthy (VStr s) = (s \<noteq> [])"

text \<open>\<open>(n.get('widgets_values') or [None])[0]\<close> (lines 121 and 144).\<close>

definition bound_name :: "node \<Rightarrow> val" where
  "bound_name n =
     (case widgets_values n of None \<Rightarrow> VNone | Some [] \<Rightarrow> VNone | Some (v # _) \<Rightarrow> v)"

text \<open>The output ports of a node: the elements of the list under \<open>'outputs'\<close>, none when
  there is no list.\<close>

definition node_outputs :: "node \<Rightarrow> out_port list" where
  "node_outputs n = (case outputs n of Present os \<Rightarrow> os | _ \<Rightarrow> [])"

text \<open>\<open>out.get('links') or []\<close>.\<close>

definition port_links :: "out_port \<Rightarrow> val list" where
  "port_links out = (case out_links out of None \<Rightarrow> [] | Some l \<Rightarrow> l)"

text \<open>Line 90: \<open>nodes_by_id = {n['id']: n for n in wf['nodes']}\<close>.  The dictionary holds
  references to the node objects; a reference is the node's position in \<open>wf['nodes']\<close>.  A
  later node with the same id replaces the earlier entry; a node without \<open>'id'\<close> raises
  KeyError.\<close>

fun index_nodes :: "nat \<Rightarrow> node list \<Rightarrow> (val \<rightharpoonup> nat) \<Rightarrow> error + (val \<rightharpoonup> nat)" where
  "index_nodes i [] m = Inr m"
| "index_nodes i (n # ns) m =
     (case node_id n of
        None \<Rightarrow> Inl KeyError
      | Some k \<Rightarrow> index_nodes (Suc i) ns (m(k \<mapsto> i)))"

text \<open>Line 92: \<open>link_map = {l[0]: l for l in wf['links']}\<close>, again with positions as
  references.  \<open>l[0]\<close> raises IndexError on an empty array: \<open>rewrite_phase\<close> below tests for
  one before it builds the map.\<close>

fun index_links :: "nat \<Rightarrow> link list \<Rightarrow> (val \<rightharpoonup> nat) \<Rightarrow> (val \<rightharpoonup> nat)" where
  "index_links i [] m = m"
| "index_links i (l # ls) m = index_links (Suc i) ls (m(l_id l \<mapsto> i))"

text \<open>Lines 94-104.  The position stored in \<open>nodes_by_id\<close> is always inside the node list
  (lemma \<open>index_nodes_sound\<close> below), so \<open>ns ! i\<close> is the referenced object.  In
  \<open>0 <= slot_index < len(outs)\<close> Python evaluates \<open>len(outs)\<close> only when \<open>0 <= slot_index\<close>
  holds; \<open>len(None)\<close> raises TypeError.\<close>

definition add_output_link ::
  "(val \<rightharpoonup> nat) \<Rightarrow> val \<Rightarrow> int \<Rightarrow> val \<Rightarrow> node list \<Rightarrow> error + node list" where
  "add_output_link nodes_by_id nid slot_index link_id ns =
     (case nodes_by_id nid of
        None \<Rightarrow> Inr ns
      | Some i \<Rightarrow>
          let node = ns ! i in
          if outputs node = Null then (if 0 \<le> slot_index then Inl TypeError else Inr ns)
          else
            let outs = node_outputs node in
            if \<not> (0 \<le> slot_index \<and> slot_index < int (length outs)) then Inr ns
            else
              let k = nat slot_index;
                  lks = (case out_links (outs ! k) of None \<Rightarrow> [] | Some l \<Rightarrow> l);
                  lks' = (if link_id \<in> set lks then lks else lks @ [link_id])
              in Inr (ns[i := node\<lparr>outputs := Present (outs[k := (outs ! k)\<lparr>out_links := Some lks'\<rparr>])\<rparr>]))"

text \<open>Lines 106-114.  \<open>list.remove\<close> deletes the first occurrence.\<close>

definition remove_output_link ::
  "(val \<rightharpoonup> nat) \<Rightarrow> val \<Rightarrow> int \<Rightarrow> val \<Rightarrow> node list \<Rightarrow> error + node list" where
  "remove_output_link nodes_by_id nid slot_index link_id ns =
     (case nodes_by_id nid of
        None \<Rightarrow> Inr ns
      | Some i \<Rightarrow>
          let node = ns ! i in
          if outputs node = Null then (if 0 \<le> slot_index then Inl TypeError else Inr ns)
          else
            let outs = node_outputs node in
            if 0 \<le> slot_index \<and> slot_index < int (length outs) then
              let k = nat slot_index in
              (case out_links (outs ! k) of
                 None \<Rightarrow> Inr ns
               | Some lks \<Rightarrow>
                   if link_id \<in> set lks
                   then Inr (ns[i := node\<lparr>outputs :=
                                 Present (outs[k := (outs ! k)\<lparr>out_links := Some (remove1 link_id lks)\<rparr>])\<rparr>])
                   else Inr ns)
            else Inr ns)"

subsection \<open>Write-port pass (lines 117-137)\<close>

text \<open>Lines 120-132: what a node contributes to the name table.  \<open>Inr None\<close> stands for
  the node not being a SetNode and for each \<open>continue\<close>.  \<open>not link\<close> holds when the id
  is not in the map and when the array found is empty; the unpacking at line 131 raises
  ValueError unless the array has exactly six elements.\<close>

definition capture :: "(val \<rightharpoonup> nat) \<Rightarrow> link list \<Rightarrow> node \<Rightarrow> error + (val \<times> source) option" where
  "capture link_map ls n =
     (if node_type n \<noteq> VStr ''SetNode'' then Inr None
      else
        let name = bound_name n in
        if \<not> truthy name then Inr None
        else
          (case inputs n of
             None \<Rightarrow> Inr None
           | Some [] \<Rightarrow> Inr None
           | Some (inp # _) \<Rightarrow>
               if in_link inp = VNone then Inr None
               else
                 (case link_map (in_link inp) of
                    None \<Rightarrow> Inr None
                  | Some i \<Rightarrow>
                      if l_len (ls ! i) = 0 then Inr None
                      else if l_len (ls ! i) \<noteq> 6 then Inl ValueError
                      else Inr (Some (name, (from_node (ls ! i), from_slot (ls ! i), ltype (ls ! i)))))))"

text \<open>Lines 133-137.  A recorded binding is a 3-tuple, hence truthy: \<open>prev and ...\<close> tests
  that the name is bound.\<close>

definition set_step ::
  "(val \<rightharpoonup> nat) \<Rightarrow> link list \<Rightarrow> node \<Rightarrow> (val \<rightharpoonup> source) \<times> conflict list
     \<Rightarrow> error + (val \<rightharpoonup> source) \<times> conflict list" where
  "set_step link_map ls n acc =
     (case capture link_map ls n of
        Inl e \<Rightarrow> Inl e
      | Inr None \<Rightarrow> Inr acc
      | Inr (Some (name, candidate)) \<Rightarrow>
          (case fst acc name of
             None \<Rightarrow> Inr ((fst acc)(name \<mapsto> candidate), snd acc)
           | Some prev \<Rightarrow>
               if prev \<noteq> candidate then
                 (case node_id n of
                    None \<Rightarrow> Inl KeyError
                  | Some nid \<Rightarrow> Inr (fst acc, snd acc @ [(name, prev, candidate, nid)]))
               else Inr ((fst acc)(name \<mapsto> candidate), snd acc)))"

definition set_pass ::
  "(val \<rightharpoonup> nat) \<Rightarrow> link list \<Rightarrow> node list \<Rightarrow> error + (val \<rightharpoonup> source) \<times> conflict list" where
  "set_pass link_map ls ns = for_each (set_step link_map ls) ns (Map.empty, [])"

subsection \<open>Read-port pass (lines 139-162)\<close>

text \<open>Lines 153-162, for one link id of the snapshot \<open>link_ids\<close>; \<open>j\<close> is the position of
  the GetNode \<open>n\<close> and \<open>k\<close> is \<open>out_slot_index\<close>.  The assignments to \<open>link[1]\<close>, \<open>link[2]\<close>
  and \<open>link[5]\<close> raise IndexError on an array of fewer than six elements.\<close>

definition link_step ::
  "(val \<rightharpoonup> nat) \<Rightarrow> (val \<rightharpoonup> nat) \<Rightarrow> nat \<Rightarrow> val \<Rightarrow> source \<Rightarrow> nat \<Rightarrow> val \<Rightarrow> gstate \<Rightarrow> error + gstate" where
  "link_step nodes_by_id link_map j name src k lid s =
     (case link_map lid of
        None \<Rightarrow> Inr s
      | Some li \<Rightarrow>
          if l_len (st_links s ! li) = 0 then Inr s
          else if l_len (st_links s ! li) < 6 then Inl IndexError
          else
            (case src of (src_node, src_slot, lt) \<Rightarrow>
               let ls' = (st_links s)[li := (st_links s ! li)
                            \<lparr>from_node := src_node, from_slot := src_slot, ltype := lt\<rparr>]
               in (case add_output_link nodes_by_id src_node src_slot lid (st_nodes s) of
                     Inl e \<Rightarrow> Inl e
                   | Inr ns' \<Rightarrow>
                       (case node_id (ns' ! j) of
                          None \<Rightarrow> Inl KeyError
                        | Some nid \<Rightarrow>
                            (case remove_output_link nodes_by_id nid (int k) lid ns' of
                               Inl e \<Rightarrow> Inl e
                             | Inr ns'' \<Rightarrow>
                                 Inr (s\<lparr>st_nodes := ns'', st_links := ls',
                                        rewired := rewired s @ [(name, lid, nid, src_node)]\<rparr>))))))"

text \<open>Lines 150-152: \<open>link_ids\<close> is a copy of the port's list taken when the port is
  reached.\<close>

definition port_step ::
  "(val \<rightharpoonup> nat) \<Rightarrow> (val \<rightharpoonup> nat) \<Rightarrow> nat \<Rightarrow> val \<Rightarrow> source \<Rightarrow> nat \<Rightarrow> gstate \<Rightarrow> error + gstate" where
  "port_step nodes_by_id link_map j name src k s =
     (let link_ids = port_links (node_outputs (st_nodes s ! j) ! k)
      in for_each (link_step nodes_by_id link_map j name src k) link_ids s)"

text \<open>Lines 143-149.  \<open>enumerate(outs)\<close> raises TypeError when \<open>outs\<close> is \<open>None\<close>.\<close>

definition get_node_step ::
  "(val \<rightharpoonup> nat) \<Rightarrow> (val \<rightharpoonup> nat) \<Rightarrow> (val \<rightharpoonup> source) \<Rightarrow> nat \<Rightarrow> gstate \<Rightarrow> error + gstate" where
  "get_node_step nodes_by_id link_map name_to_source j s =
     (let n = st_nodes s ! j in
      if node_type n = VStr ''GetNode'' then
        let name = bound_name n in
        (case name_to_source name of
           None \<Rightarrow>
             (case node_id n of
                None \<Rightarrow> Inl KeyError
              | Some nid \<Rightarrow> Inr (s\<lparr>skipped_gets := skipped_gets s @ [(nid, name)]\<rparr>))
         | Some src \<Rightarrow>
             if outputs n = Null then Inl TypeError
             else
               for_each (port_step nodes_by_id link_map j name src)
                 [0..<length (node_outputs n)] s)
      else Inr s)"

definition get_pass ::
  "(val \<rightharpoonup> nat) \<Rightarrow> (val \<rightharpoonup> nat) \<Rightarrow> (val \<rightharpoonup> source) \<Rightarrow> gstate \<Rightarrow> error + gstate" where
  "get_pass nodes_by_id link_map name_to_source s =
     for_each (get_node_step nodes_by_id link_map name_to_source) [0..<length (st_nodes s)] s"

subsection \<open>Lines 86-162 together\<close>

text \<open>\<open>deepcopy\<close> (line 86) yields an equal value, so the passes start from the value of
  the argument; the objects they mutate are those of the copy.  Line 87 tests that both
  keys are there.  Line 90 iterates over \<open>wf['nodes']\<close> and line 92 over \<open>wf['links']\<close>:
  TypeError when the entry is null.\<close>

definition rewrite_phase ::
  "workflow \<Rightarrow> error + (val \<rightharpoonup> source) \<times> conflict list \<times> gstate" where
  "rewrite_phase workflow =
     (if wf_nodes workflow = Absent \<or> wf_links workflow = Absent then Inl MalformedGraph
      else
        (case wf_nodes workflow of
           Present ns \<Rightarrow>
             (case index_nodes 0 ns Map.empty of
                Inl e \<Rightarrow> Inl e
              | Inr nodes_by_id \<Rightarrow>
                  (case wf_links workflow of
                     Present ls \<Rightarrow>
                       if \<exists>l \<in> set ls. l_len l = 0 then Inl IndexError
                       else
                         let link_map = index_links 0 ls Map.empty in
                         (case set_pass link_map ls ns of
                            Inl e \<Rightarrow> Inl e
                          | Inr (name_to_source, conflicts) \<Rightarrow>
                              (case get_pass nodes_by_id link_map name_to_source
                                      \<lparr>st_nodes = ns, st_links = ls, rewired = [], skipped_gets = []\<rparr> of
                                 Inl e \<Rightarrow> Inl e
                               | Inr s \<Rightarrow> Inr (name_to_source, conflicts, s)))
                   | _ \<Rightarrow> Inl TypeError))
         | _ \<Rightarrow> Inl TypeError))"

subsection \<open>Optional pruning (lines 165-181)\<close>

definition is_routing :: "node \<Rightarrow> bool" where
  "is_routing n = (node_type n = VStr ''SetNode'' \<or> node_type n = VStr ''GetNode'')"

text \<open>Lines 168-172.\<close>

definition drop_step :: "node \<Rightarrow> node list \<times> val set \<Rightarrow> error + node list \<times> val set" where
  "drop_step n acc =
     (if is_routing n then
        (case node_id n of
           None \<Rightarrow> Inl KeyError
         | Some nid \<Rightarrow> Inr (fst acc, insert nid (snd acc)))
      else Inr (fst acc @ [n], snd acc))"

text \<open>Lines 175-181, for links that all have six elements.\<close>

definition keep_links :: "val set \<Rightarrow> link list \<Rightarrow> link list" where
  "keep_links dropped_ids ls =
     filter (\<lambda>l. \<not> (from_node l \<in> dropped_ids \<or> to_node l \<in> dropped_ids)) ls"

text \<open>Lines 165-181.  The loop over the links unpacks every link (line 177), so it raises
  ValueError when one of them does not have exactly six elements.\<close>

definition prune :: "bool \<Rightarrow> node list \<Rightarrow> link list \<Rightarrow> error + node list \<times> link list" where
  "prune drop_setget ns ls =
     (if drop_setget then
        (case for_each drop_step ns ([], {}) of
           Inl e \<Rightarrow> Inl e
         | Inr (new_nodes, dropped_ids) \<Rightarrow>
             if \<exists>l \<in> set ls. l_len l \<noteq> 6 then Inl ValueError
             else Inr (new_nodes, keep_links dropped_ids ls))
      else Inr (ns, ls))"

subsection \<open>Report (lines 183-185)\<close>

text \<open>The values put into the report.  A Python tuple is written as a JSON array.\<close>

fun jval :: "val \<Rightarrow> json" where
  "jval VNone = JNull"
| "jval (VInt i) = JInt i"
| "jval (VStr s) = JStr s"

definition jsource :: "source \<Rightarrow> json" where
  "jsource t = (case t of (a, b, c) \<Rightarrow> JList [jval a, JInt b, jval c])"

definition jskipped :: "(val \<times> val) list \<Rightarrow> json" where
  "jskipped sk = JList (map (\<lambda>(nid, name). JList [jval nid, jval name]) sk)"

definition jconflicts :: "conflict list \<Rightarrow> json" where
  "jconflicts cs =
     JList (map (\<lambda>(name, prev, cand, nid). JList [jval name, jsource prev, jsource cand, jval nid]) cs)"

text \<open>One statement
  \<open>wf.setdefault('extra', {}).setdefault('__hardline_rewire', {})[key] = v\<close>: \<open>setdefault\<close>
  returns what is already stored when the key exists.  A stored \<open>extra\<close> that is not a dict
  has no \<open>setdefault\<close> (AttributeError); a stored report that is not a dict does not take a
  string-keyed item assignment (TypeError).\<close>

definition set_report_key :: "string \<Rightarrow> json \<Rightarrow> json option \<Rightarrow> error + json option" where
  "set_report_key key v ex =
     (case (case ex of None \<Rightarrow> JObj [] | Some e \<Rightarrow> e) of
        JObj d \<Rightarrow>
          (case (case map_of d ''__hardline_rewire'' of None \<Rightarrow> JObj [] | Some r \<Rightarrow> r) of
             JObj r \<Rightarrow>
               Inr (Some (JObj (AList.update ''__hardline_rewire'' (JObj (AList.update key v r)) d)))
           | _ \<Rightarrow> Inl TypeError)
      | _ \<Rightarrow> Inl AttributeError)"

definition attach_report ::
  "nat \<Rightarrow> (val \<times> val) list \<Rightarrow> conflict list \<Rightarrow> json option \<Rightarrow> error + json option" where
  "attach_report n sk cs ex =
     (case set_report_key ''rewired_count'' (JInt (int n)) ex of
        Inl e \<Rightarrow> Inl e
      | Inr ex1 \<Rightarrow>
          (case set_report_key ''skipped_gets'' (jskipped sk) ex1 of
             Inl e \<Rightarrow> Inl e
           | Inr ex2 \<Rightarrow> set_report_key ''conflicts'' (jconflicts cs) ex2))"

subsection \<open>The whole function (lines 73-186)\<close>

definition convert_setget_to_hardlines :: "workflow \<Rightarrow> bool \<Rightarrow> error + workflow" where
  "convert_setget_to_hardlines workflow drop_setget =
     (case rewrite_phase workflow of
        Inl e \<Rightarrow> Inl e
      | Inr (name_to_source, conflicts, s) \<Rightarrow>
          (case prune drop_setget (st_nodes s) (st_links s) of
             Inl e \<Rightarrow> Inl e
           | Inr (ns', ls') \<Rightarrow>
               (case attach_report (length (rewired s)) (skipped_gets s) conflicts (wf_extra workflow) of
                  Inl e \<Rightarrow> Inl e
                | Inr ex' \<Rightarrow>
                    Inr (workflow\<lparr>wf_nodes := Present ns', wf_links := Present ls', wf_extra := ex'\<rparr>))))"

section \<open>Notions used in the statements\<close>

text \<open>What \<open>add_output_link\<close> and \<open>remove_output_link\<close> do to the node objects
  when they do not raise.\<close>

definition add_link :: "(val \<rightharpoonup> nat) \<Rightarrow> val \<Rightarrow> int \<Rightarrow> val \<Rightarrow> node list \<Rightarrow> node list" where
  "add_link nodes_by_id nid slot_index link_id ns =
     (case nodes_by_id nid of
        None \<Rightarrow> ns
      | Some i \<Rightarrow>
          let node = ns ! i; outs = node_outputs node in
          if \<not> (0 \<le> slot_index \<and> slot_index < int (length outs)) then ns
          else
            let k = nat slot_index;
                lks = (case out_links (outs ! k) of None \<Rightarrow> [] | Some l \<Rightarrow> l);
                lks' = (if link_id \<in> set lks then lks else lks @ [link_id])
            in ns[i := node\<lparr>outputs := Present (outs[k := (outs ! k)\<lparr>out_links := Some lks'\<rparr>])\<rparr>])"

definition remove_link :: "(val \<rightharpoonup> nat) \<Rightarrow> val \<Rightarrow> int \<Rightarrow> val \<Rightarrow> node list \<Rightarrow> node list" where
  "remove_link nodes_by_id nid slot_index link_id ns =
     (case nodes_by_id nid of
        None \<Rightarrow> ns
      | Some i \<Rightarrow>
          let node = ns ! i; outs = node_outputs node in
          if 0 \<le> slot_index \<and> slot_index < int (length outs) then
            let k = nat slot_index in
            (case out_links (outs ! k) of
               None \<Rightarrow> ns
             | Some lks \<Rightarrow>
                 if link_id \<in> set lks
                 then ns[i := node\<lparr>outputs := Present (outs[k := (outs ! k)\<lparr>out_links := Some (remove1 link_id lks)\<rparr>])\<rparr>]
                 else ns)
          else ns)"

text \<open>The node that a call of \<open>add_output_link\<close> or \<open>remove_output_link\<close> finds has
  \<open>'outputs': null\<close>, and the slot index is not negative: the call raises TypeError.\<close>

definition null_port :: "(val \<rightharpoonup> nat) \<Rightarrow> val \<Rightarrow> int \<Rightarrow> node list \<Rightarrow> bool" where
  "null_port nodes_by_id nid slot_index ns =
     (case nodes_by_id nid of
        None \<Rightarrow> False
      | Some i \<Rightarrow> outputs (ns ! i) = Null \<and> 0 \<le> slot_index)"

text \<open>What the read-port pass never changes in a node: everything but the contents of its
  output ports.\<close>

definition node_frame ::
  "node \<Rightarrow> val option \<times> val \<times> val list option \<times> in_port list option \<times> nat \<times> bool" where
  "node_frame n =
     (node_id n, node_type n, widgets_values n, inputs n, length (node_outputs n), outputs n = Null)"

text \<open>What the pass never changes in a link: its id, its target endpoint and the number
  of its elements.\<close>

definition link_frame :: "link \<Rightarrow> val \<times> val \<times> int \<times> nat" where
  "link_frame l = (l_id l, to_node l, to_slot l, l_len l)"

text \<open>Every node dict has an \<open>'id'\<close> key.\<close>

definition ids_present :: "node list \<Rightarrow> bool" where
  "ids_present ns = (\<forall>n \<in> set ns. node_id n \<noteq> None)"

text \<open>The \<open>extra\<close> area is absent or a dict, and what it stores under the report key is
  nothing or a dict.\<close>

definition report_slot_ok :: "json option \<Rightarrow> bool" where
  "report_slot_ok ex =
     (case ex of
        None \<Rightarrow> True
      | Some (JObj d) \<Rightarrow>
          (case map_of d ''__hardline_rewire'' of
             None \<Rightarrow> True
           | Some (JObj r) \<Rightarrow> True
           | Some _ \<Rightarrow> False)
      | Some _ \<Rightarrow> False)"


text \<open>The link ids attached to output port \<open>k\<close> of the node at position \<open>j\<close>.\<close>

definition links_at :: "node list \<Rightarrow> nat \<Rightarrow> nat \<Rightarrow> val list" where
  "links_at ns j k = port_links (node_outputs (ns ! j) ! k)"

text \<open>The number of output ports of the node at position \<open>j\<close>.\<close>

definition nports :: "node list \<Rightarrow> nat \<Rightarrow> nat" where
  "nports ns j = length (node_outputs (ns ! j))"

text \<open>Every link is an array of exactly six elements; no link is an empty array; no node
  has \<open>'outputs': null\<close>.\<close>

definition links_six :: "link list \<Rightarrow> bool" where
  "links_six ls = (\<forall>l \<in> set ls. l_len l = 6)"

definition links_nonempty :: "link list \<Rightarrow> bool" where
  "links_nonempty ls = (\<forall>l \<in> set ls. l_len l \<noteq> 0)"

definition outputs_listed :: "node list \<Rightarrow> bool" where
  "outputs_listed ns = (\<forall>n \<in> set ns. outputs n \<noteq> Null)"

text \<open>Every entry of \<open>link_map\<close> refers to a link object of the list that carries the key as
  its id and is not an empty array.\<close>

definition link_map_ok :: "(val \<rightharpoonup> nat) \<Rightarrow> link list \<Rightarrow> bool" where
  "link_map_ok lm ls =
     (\<forall>lid li. lm lid = Some li \<longrightarrow> li < length ls \<and> l_id (ls ! li) = lid \<and> l_len (ls ! li) \<noteq> 0)"

text \<open>Every entry of \<open>nodes_by_id\<close> refers to a node object of the list that carries the key as its id.\<close>

definition nodes_by_id_ok :: "(val \<rightharpoonup> nat) \<Rightarrow> node list \<Rightarrow> bool" where
  "nodes_by_id_ok nbi ns = (\<forall>x i. nbi x = Some i \<longrightarrow> i < length ns \<and> node_id (ns ! i) = Some x)"

text \<open>The dict found under \<open>extra\<close> before the call (empty when there is none).\<close>

definition prior_extra :: "json option \<Rightarrow> (string \<times> json) list" where
  "prior_extra ex = (case ex of Some (JObj d) \<Rightarrow> d | _ \<Rightarrow> [])"

text \<open>The dict found under the report key before the call (empty when there is none).\<close>

definition prior_report :: "json option \<Rightarrow> (string \<times> json) list" where
  "prior_report ex =
     (case map_of (prior_extra ex) ''__hardline_rewire'' of Some (JObj r) \<Rightarrow> r | _ \<Rightarrow> [])"

text \<open>The ids of the SetNodes and GetNodes of a node list.\<close>

definition routing_ids :: "node list \<Rightarrow> val set" where
  "routing_ids ns = {x. \<exists>n \<in> set ns. is_routing n \<and> node_id n = Some x}"

text \<open>The SetNodes that resolve, in node order, each with the name it binds, the triple it
  captures and its id.\<close>

definition bindings :: "(val \<rightharpoonup> nat) \<Rightarrow> link list \<Rightarrow> node list \<Rightarrow> (val \<times> source \<times> val option) list" where
  "bindings lm ls ns =
     List.map_filter
       (\<lambda>n. case capture lm ls n of
              Inr (Some (name, c)) \<Rightarrow> Some (name, c, node_id n)
            | _ \<Rightarrow> None) ns"

text \<open>In the words of the specification: the triple of the first SetNode, in node order,
  that resolves the name.\<close>

definition first_binding :: "(val \<times> source \<times> val option) list \<Rightarrow> val \<Rightarrow> source option" where
  "first_binding bs name = map_option (\<lambda>b. fst (snd b)) (find (\<lambda>b. fst b = name) bs)"

text \<open>In the words of the specification: a SetNode whose triple differs from the first one
  recorded for its name contributes the entry (name, first, its own, its id); any other
  SetNode contributes nothing.\<close>

definition conflict_entry ::
  "(val \<Rightarrow> source option) \<Rightarrow> val \<times> source \<times> val option \<Rightarrow> conflict option" where
  "conflict_entry fb b =
     (case b of (name, c, i) \<Rightarrow>
        (case fb name of
           None \<Rightarrow> None
         | Some p \<Rightarrow>
             (case i of
                None \<Rightarrow> None
              | Some nid \<Rightarrow> if p \<noteq> c then Some (name, p, c, nid) else None)))"

definition divergent :: "(val \<times> source \<times> val option) list \<Rightarrow> conflict list" where
  "divergent bs = List.map_filter (conflict_entry (first_binding bs)) bs"



text \<open>A state of the read-port pass has the frame of the input: the same nodes up to the
  contents of their output ports, and the same links up to source and type tag.\<close>

definition same_frame :: "node list \<Rightarrow> link list \<Rightarrow> gstate \<Rightarrow> bool" where
  "same_frame ns ls t =
     (map node_frame (st_nodes t) = map node_frame ns \<and>
      map link_frame (st_links t) = map link_frame ls)"

text \<open>A property of the state is kept by every rewrite of one link id at the output ports
  selected by \<open>Pos\<close>: \<open>lid\<close> was on port \<open>k\<close> of the resolved GetNode at position \<open>j\<close> in some
  earlier state \<open>tp\<close> that had the property.\<close>

definition steps_keep ::
  "(val \<rightharpoonup> nat) \<Rightarrow> (val \<rightharpoonup> nat) \<Rightarrow> (val \<rightharpoonup> source) \<Rightarrow> node list \<Rightarrow> link list \<Rightarrow>
     (nat \<Rightarrow> nat \<Rightarrow> bool) \<Rightarrow> (gstate \<Rightarrow> bool) \<Rightarrow> bool" where
  "steps_keep nbi lm nts ns ls Pos I =
     ((\<forall>t x. I t \<longrightarrow> I (t\<lparr>skipped_gets := x\<rparr>)) \<and>
      (\<forall>j k src lid tp t t'.
          j < length ns \<longrightarrow> node_type (ns ! j) = VStr ''GetNode'' \<longrightarrow>
          nts (bound_name (ns ! j)) = Some src \<longrightarrow> k < nports ns j \<longrightarrow> Pos j k \<longrightarrow>
          I tp \<longrightarrow> same_frame ns ls tp \<longrightarrow> lid \<in> set (links_at (st_nodes tp) j k) \<longrightarrow>
          I t \<longrightarrow> same_frame ns ls t \<longrightarrow>
          link_step nbi lm j (bound_name (ns ! j)) src k lid t = Inr t' \<longrightarrow> I t'))"

text \<open>No binding's source node is a GetNode: Set/Get pairs are not chained.\<close>

definition no_chaining :: "(val \<rightharpoonup> nat) \<Rightarrow> (val \<rightharpoonup> source) \<Rightarrow> node list \<Rightarrow> bool" where
  "no_chaining nbi nts ns =
     (\<forall>name a b c i. nts name = Some (a, b, c) \<longrightarrow> nbi a = Some i \<longrightarrow>
        node_type (ns ! i) \<noteq> VStr ''GetNode'')"

text \<open>\<open>nodes_by_id\<close> sends the id of every node to that very node (as it does when no two
  nodes share an id).\<close>

definition ids_exact :: "(val \<rightharpoonup> nat) \<Rightarrow> node list \<Rightarrow> bool" where
  "ids_exact nbi ns = (\<forall>j < length ns. \<exists>nid. node_id (ns ! j) = Some nid \<and> nbi nid = Some j)"

text \<open>Every GetNode that has the link id on an output port is unresolved or resolves to
  \<open>src\<close>.\<close>

definition readers_agree :: "(val \<rightharpoonup> source) \<Rightarrow> node list \<Rightarrow> val \<Rightarrow> source \<Rightarrow> bool" where
  "readers_agree nts ns lid src =
     (\<forall>j k. j < length ns \<longrightarrow> node_type (ns ! j) = VStr ''GetNode'' \<longrightarrow> k < nports ns j \<longrightarrow>
        lid \<in> set (links_at ns j k) \<longrightarrow>
        nts (bound_name (ns ! j)) = None \<or> nts (bound_name (ns ! j)) = Some src)"

text \<open>Every output port of a GetNode that holds the link id held it in the input.\<close>

definition holders_input :: "node list \<Rightarrow> val \<Rightarrow> gstate \<Rightarrow> bool" where
  "holders_input ns lid t =
     (\<forall>j k. j < length ns \<longrightarrow> node_type (ns ! j) = VStr ''GetNode'' \<longrightarrow> k < nports ns j \<longrightarrow>
        lid \<in> set (links_at (st_nodes t) j k) \<longrightarrow> lid \<in> set (links_at ns j k))"

text \<open>The output port that \<open>add_output_link\<close> finds for the source \<open>(a, b)\<close>, if it finds
  one, is not a port of a GetNode.\<close>

definition beside_get_ports :: "(val \<rightharpoonup> nat) \<Rightarrow> node list \<Rightarrow> val \<Rightarrow> int \<Rightarrow> bool" where
  "beside_get_ports nbi ns a b =
     (\<forall>i. nbi a = Some i \<longrightarrow> node_type (ns ! i) = VStr ''GetNode'' \<longrightarrow>
        \<not> (0 \<le> b \<and> b < int (nports ns i)))"

text \<open>The link at position \<open>li\<close> is the input link with its source and type tag replaced
  by \<open>src\<close>.\<close>

definition link_settled :: "link list \<Rightarrow> nat \<Rightarrow> source \<Rightarrow> gstate \<Rightarrow> bool" where
  "link_settled ls li src t =
     (st_links t ! li =
        (ls ! li)\<lparr>from_node := fst src, from_slot := fst (snd src), ltype := snd (snd src)\<rparr>)"

text \<open>The trace entries of the specification's read-port pass on the input graph: for every
  resolved GetNode in node order, every output port in port order and every link id on the
  port in list order, skipping the ids that map to no link.\<close>

definition port_trace :: "(val \<rightharpoonup> nat) \<Rightarrow> val \<Rightarrow> val \<Rightarrow> val \<Rightarrow> val list \<Rightarrow> (val \<times> val \<times> val \<times> val) list" where
  "port_trace lm name nid a xs = map (\<lambda>x. (name, x, nid, a)) (filter (\<lambda>x. lm x \<noteq> None) xs)"

definition node_trace ::
  "(val \<rightharpoonup> nat) \<Rightarrow> (val \<rightharpoonup> source) \<Rightarrow> node list \<Rightarrow> nat \<Rightarrow> (val \<times> val \<times> val \<times> val) list" where
  "node_trace lm nts ns j =
     (if node_type (ns ! j) = VStr ''GetNode'' then
        (case nts (bound_name (ns ! j)) of
           None \<Rightarrow> []
         | Some src \<Rightarrow>
             (case node_id (ns ! j) of
                None \<Rightarrow> []
              | Some nid \<Rightarrow>
                  concat (map (\<lambda>k. port_trace lm (bound_name (ns ! j)) nid (fst src) (links_at ns j k))
                            [0..<nports ns j])))
      else [])"

definition expected_trace ::
  "(val \<rightharpoonup> nat) \<Rightarrow> (val \<rightharpoonup> source) \<Rightarrow> node list \<Rightarrow> (val \<times> val \<times> val \<times> val) list" where
  "expected_trace lm nts ns = concat (map (node_trace lm nts ns) [0..<length ns])"






text \<open>No node whose id is the source of a binding is a GetNode: the Set/Get pairs of the
  graph are not chained through each other.\<close>

definition sources_plain :: "(val \<rightharpoonup> source) \<Rightarrow> node list \<Rightarrow> bool" where
  "sources_plain nts ns =
     (\<forall>name a b c. nts name = Some (a, b, c) \<longrightarrow>
        (\<forall>n \<in> set ns. node_id n = Some a \<longrightarrow> node_type n \<noteq> VStr ''GetNode''))"

text \<open>What the rewrite pass (lines 86-162) leaves behind, for a workflow it accepts: the
  name table, the link objects and the node objects.\<close>

definition table_after :: "workflow \<Rightarrow> val \<Rightarrow> source option" where
  "table_after w name = (case rewrite_phase w of Inl e \<Rightarrow> None | Inr (nts, cfs, s) \<Rightarrow> nts name)"

definition links_after :: "workflow \<Rightarrow> link list" where
  "links_after w = (case rewrite_phase w of Inl e \<Rightarrow> [] | Inr (nts, cfs, s) \<Rightarrow> st_links s)"

definition nodes_after :: "workflow \<Rightarrow> node list" where
  "nodes_after w = (case rewrite_phase w of Inl e \<Rightarrow> [] | Inr (nts, cfs, s) \<Rightarrow> st_nodes s)"

definition trace_after :: "workflow \<Rightarrow> (val \<times> val \<times> val \<times> val) list" where
  "trace_after w = (case rewrite_phase w of Inl e \<Rightarrow> [] | Inr (nts, cfs, s) \<Rightarrow> rewired s)"

text \<open>The source \<open>(a, b)\<close> is no output port of a GetNode.\<close>

definition off_get_ports :: "node list \<Rightarrow> val \<Rightarrow> int \<Rightarrow> bool" where
  "off_get_ports ns a b =
     (\<forall>n \<in> set ns. node_id n = Some a \<longrightarrow> node_type n = VStr ''GetNode'' \<longrightarrow>
        \<not> (0 \<le> b \<and> b < int (length (node_outputs n))))"

text \<open>The link id is on an output port of some resolved GetNode of the input.\<close>

definition attached_resolved :: "(val \<rightharpoonup> source) \<Rightarrow> node list \<Rightarrow> val \<Rightarrow> bool" where
  "attached_resolved nts ns lid =
     (\<exists>j k. j < length ns \<and> node_type (ns ! j) = VStr ''GetNode'' \<and>
        nts (bound_name (ns ! j)) \<noteq> None \<and> k < nports ns j \<and> lid \<in> set (links_at ns j k))"

text \<open>The link ids on the ports of the resolved GetNodes were there in the input, and a
  link whose id was on none of them is as in the input.\<close>

definition untouched_links :: "(val \<rightharpoonup> source) \<Rightarrow> node list \<Rightarrow> link list \<Rightarrow> gstate \<Rightarrow> bool" where
  "untouched_links nts ns ls t =
     ((\<forall>j k. j < length ns \<longrightarrow> node_type (ns ! j) = VStr ''GetNode'' \<longrightarrow>
         nts (bound_name (ns ! j)) \<noteq> None \<longrightarrow> k < nports ns j \<longrightarrow>
         (\<forall>x \<in> set (links_at (st_nodes t) j k). attached_resolved nts ns x)) \<and>
      (\<forall>li < length ls. \<not> attached_resolved nts ns (l_id (ls ! li)) \<longrightarrow> st_links t ! li = ls ! li))"

text \<open>The source \<open>(a, b)\<close> names no output port of the graph: no node has the id \<open>a\<close>, or
  the node that has it has no output port \<open>b\<close>.\<close>

definition no_such_port :: "node list \<Rightarrow> val \<Rightarrow> int \<Rightarrow> bool" where
  "no_such_port ns a b =
     (\<forall>n \<in> set ns. node_id n = Some a \<longrightarrow> \<not> (0 \<le> b \<and> b < int (length (node_outputs n))))"

section \<open>Sample workflows\<close>

definition mk_node :: "int \<Rightarrow> string \<Rightarrow> val list \<Rightarrow> val list \<Rightarrow> val list list \<Rightarrow> node" where
  "mk_node i t wv ins outs =
     \<lparr>node_id = Some (VInt i), node_type = VStr t, widgets_values = Some wv,
      inputs = Some (map (\<lambda>l. \<lparr>in_link = l\<rparr>) ins),
      outputs = Present (map (\<lambda>l. \<lparr>out_links = Some l\<rparr>) outs)\<rparr>"

definition mk_link :: "int \<Rightarrow> int \<Rightarrow> int \<Rightarrow> int \<Rightarrow> int \<Rightarrow> string \<Rightarrow> link" where
  "mk_link i a b c d t =
     \<lparr>l_id = VInt i, from_node = VInt a, from_slot = b, to_node = VInt c, to_slot = d,
      ltype = VStr t, l_len = 6\<rparr>"

text \<open>The example of the specification: node 5 feeds SetNode 1 (name X) through link 10;
  GetNode 2 (name X) feeds node 3 through link 20.\<close>

definition example_nodes :: "node list" where
  "example_nodes =
     [mk_node 5 ''LoadImage'' [] [] [[VInt 10]],
      mk_node 1 ''SetNode'' [VStr ''X''] [VInt 10] [],
      mk_node 2 ''GetNode'' [VStr ''X''] [] [[VInt 20]],
      mk_node 3 ''SaveImage'' [] [VInt 20] []]"

definition example_links :: "link list" where
  "example_links = [mk_link 10 5 0 1 0 ''IMAGE'', mk_link 20 2 0 3 0 ''IMAGE'']"

definition example_workflow :: workflow where
  "example_workflow =
     \<lparr>wf_nodes = Present example_nodes, wf_links = Present example_links, wf_extra = None\<rparr>"



text \<open>Two ordinary nodes joined by link 10, and an \<open>extra\<close> area with an entry of its
  own.\<close>

definition plain_nodes :: "node list" where
  "plain_nodes =
     [mk_node 5 ''LoadImage'' [] [] [[VInt 10]], mk_node 3 ''SaveImage'' [] [VInt 10] []]"



text \<open>Two SetNodes bind the name X: node 1 captures node 5, node 7 captures node 6.
  GetNode 2 reads X and feeds node 3 through link 20.\<close>

definition conflict_nodes :: "node list" where
  "conflict_nodes =
     [mk_node 5 ''LoadImage'' [] [] [[VInt 10]],
      mk_node 6 ''LoadImage'' [] [] [[VInt 11]],
      mk_node 1 ''SetNode'' [VStr ''X''] [VInt 10] [],
      mk_node 7 ''SetNode'' [VStr ''X''] [VInt 11] [],
      mk_node 2 ''GetNode'' [VStr ''X''] [] [[VInt 20]],
      mk_node 3 ''SaveImage'' [] [VInt 20] []]"

definition conflict_links :: "link list" where
  "conflict_links =
     [mk_link 10 5 0 1 0 ''IMAGE'', mk_link 11 6 0 7 0 ''IMAGE'', mk_link 20 2 0 3 0 ''IMAGE'']"

definition conflict_workflow :: workflow where
  "conflict_workflow =
     \<lparr>wf_nodes = Present conflict_nodes, wf_links = Present conflict_links, wf_extra = None\<rparr>"

text \<open>A chain: SetNode 1 binds X to node 5; GetNode 2 reads X and feeds SetNode 3, which
  binds Y (so Y is bound to GetNode 2); GetNode 4 reads Y and feeds node 6.  GetNode 4
  comes before GetNode 2 in node order.\<close>

definition chain_nodes :: "node list" where
  "chain_nodes =
     [mk_node 5 ''LoadImage'' [] [] [[VInt 10]],
      mk_node 1 ''SetNode'' [VStr ''X''] [VInt 10] [],
      mk_node 3 ''SetNode'' [VStr ''Y''] [VInt 20] [],
      mk_node 4 ''GetNode'' [VStr ''Y''] [] [[VInt 30]],
      mk_node 2 ''GetNode'' [VStr ''X''] [] [[VInt 20]],
      mk_node 6 ''SaveImage'' [] [VInt 30] []]"

definition chain_links :: "link list" where
  "chain_links =
     [mk_link 10 5 0 1 0 ''IMAGE'', mk_link 20 2 0 3 0 ''IMAGE'', mk_link 30 4 0 6 0 ''IMAGE'']"

definition chain_workflow :: workflow where
  "chain_workflow =
     \<lparr>wf_nodes = Present chain_nodes, wf_links = Present chain_links, wf_extra = None\<rparr>"

text \<open>GetNode 2 reads Z, which no SetNode binds, and feeds node 3 through link 20.\<close>

definition orphan_nodes :: "node list" where
  "orphan_nodes =
     [mk_node 2 ''GetNode'' [VStr ''Z''] [] [[VInt 20]], mk_node 3 ''SaveImage'' [] [VInt 20] []]"

definition orphan_links :: "link list" where
  "orphan_links = [mk_link 20 2 0 3 0 ''IMAGE'']"

definition orphan_workflow :: workflow where
  "orphan_workflow =
     \<lparr>wf_nodes = Present orphan_nodes, wf_links = Present orphan_links, wf_extra = None\<rparr>"

text \<open>GetNode 2 reads X, which no SetNode binds, and feeds SetNode 3, which binds Y;
  GetNode 4 reads Y and feeds node 6.\<close>

definition fed_orphan_nodes :: "node list" where
  "fed_orphan_nodes =
     [mk_node 2 ''GetNode'' [VStr ''X''] [] [[VInt 20]],
      mk_node 3 ''SetNode'' [VStr ''Y''] [VInt 20] [],
      mk_node 4 ''GetNode'' [VStr ''Y''] [] [[VInt 30]],
      mk_node 6 ''SaveImage'' [] [VInt 30] []]"

definition fed_orphan_links :: "link list" where
  "fed_orphan_links = [mk_link 20 2 0 3 0 ''IMAGE'', mk_link 30 4 0 6 0 ''IMAGE'']"

definition fed_orphan_workflow :: workflow where
  "fed_orphan_workflow =
     \<lparr>wf_nodes = Present fed_orphan_nodes, wf_links = Present fed_orphan_links, wf_extra = None\<rparr>"

text \<open>SetNode 1 binds X through link 10, whose source is node 99; no node has the id 99.
  GetNode 2 reads X and feeds node 3 through link 20.\<close>

definition dangling_nodes :: "node list" where
  "dangling_nodes =
     [mk_node 1 ''SetNode'' [VStr ''X''] [VInt 10] [],
      mk_node 2 ''GetNode'' [VStr ''X''] [] [[VInt 20]],
      mk_node 3 ''SaveImage'' [] [VInt 20] []]"

definition dangling_links :: "link list" where
  "dangling_links = [mk_link 10 99 0 1 0 ''IMAGE'', mk_link 20 2 0 3 0 ''IMAGE'']"

definition dangling_workflow :: workflow where
  "dangling_workflow =
     \<lparr>wf_nodes = Present dangling_nodes, wf_links = Present dangling_links, wf_extra = None\<rparr>"

text \<open>The dangling workflow with a second node of id 2 after the GetNode: \<open>nodes_by_id\<close>
  sends 2 to that node.\<close>

definition twin_nodes :: "node list" where
  "twin_nodes =
     [mk_node 1 ''SetNode'' [VStr ''X''] [VInt 10] [],
      mk_node 2 ''GetNode'' [VStr ''X''] [] [[VInt 20]],
      mk_node 2 ''Note'' [] [] [[]],
      mk_node 3 ''SaveImage'' [] [VInt 20] []]"

definition twin_workflow :: workflow where
  "twin_workflow =
     \<lparr>wf_nodes = Present twin_nodes, wf_links = Present dangling_links, wf_extra = None\<rparr>"

text \<open>SetNode 1 binds X to node 5; SetNodes 8 and 9 bind Y, to node 6 and to node 7.  Two
  GetNodes have the id 2 and link 20 on their port 0: the first reads X, the second Y.\<close>

definition shadow_nodes :: "node list" where
  "shadow_nodes =
     [mk_node 5 ''LoadImage'' [] [] [[VInt 10]],
      mk_node 6 ''LoadImage'' [] [] [[VInt 11]],
      mk_node 7 ''LoadImage'' [] [] [[VInt 12]],
      mk_node 1 ''SetNode'' [VStr ''X''] [VInt 10] [],
      mk_node 8 ''SetNode'' [VStr ''Y''] [VInt 11] [],
      mk_node 9 ''SetNode'' [VStr ''Y''] [VInt 12] [],
      mk_node 2 ''GetNode'' [VStr ''X''] [] [[VInt 20]],
      mk_node 2 ''GetNode'' [VStr ''Y''] [] [[VInt 20]],
      mk_node 3 ''SaveImage'' [] [VInt 20] []]"

definition shadow_links :: "link list" where
  "shadow_links =
     [mk_link 10 5 0 1 0 ''IMAGE'', mk_link 11 6 0 8 0 ''IMAGE'', mk_link 12 7 0 9 0 ''IMAGE'',
      mk_link 20 2 0 3 0 ''IMAGE'']"

definition shadow_workflow :: workflow where
  "shadow_workflow =
     \<lparr>wf_nodes = Present shadow_nodes, wf_links = Present shadow_links, wf_extra = None\<rparr>"


text \<open>The two plain nodes, joined by the five-element link \<open>[10, 5, 0, 3, 0]\<close>.\<close>

definition short_link_workflow :: workflow where
  "short_link_workflow =
     \<lparr>wf_nodes = Present plain_nodes,
      wf_links = Present [(mk_link 10 5 0 3 0 [])\<lparr>ltype := VNone, l_len := 5\<rparr>],
      wf_extra = None\<rparr>"

text \<open>The example of the specification with \<open>'outputs': null\<close> on GetNode 2.\<close>

definition null_outputs_workflow :: workflow where
  "null_outputs_workflow =
     \<lparr>wf_nodes = Present (example_nodes[2 := (example_nodes ! 2)\<lparr>outputs := Null\<rparr>]),
      wf_links = Present example_links, wf_extra = None\<rparr>"

text \<open>The example of the specification with \<open>'links': null\<close>.\<close>

definition null_links_workflow :: workflow where
  "null_links_workflow = \<lparr>wf_nodes = Present example_nodes, wf_links = Null, wf_extra = None\<rparr>"

section \<open>Properties\<close>

subsection \<open>Loops\<close>

lemma for_each_append:
  "for_each f (xs @ ys) s = (case for_each f xs s of Inl e \<Rightarrow> Inl e | Inr s' \<Rightarrow> for_each f ys s')"
  by (induction xs arbitrary: s) (auto split: sum.splits)

lemma for_each_inv:
  assumes "for_each f xs s = Inr s'" and "I s"
    and "\<And>x t t'. x \<in> set xs \<Longrightarrow> I t \<Longrightarrow> f x t = Inr t' \<Longrightarrow> I t'"
  shows "I s'"
  using assms
proof (induction xs arbitrary: s)
  case Nil
  then show ?case by simp
next
  case (Cons x xs)
  from Cons.prems(1) obtain t where t: "f x s = Inr t" and rest: "for_each f xs t = Inr s'"
    by (auto split: sum.splits)
  have "I t" using Cons.prems(2,3) t by auto
  then show ?case using Cons.IH [OF rest] Cons.prems(3) by auto
qed

lemma for_each_returns:
  assumes "I s"
    and "\<And>x t. x \<in> set xs \<Longrightarrow> I t \<Longrightarrow> \<exists>t'. f x t = Inr t' \<and> I t'"
  shows "\<exists>s'. for_each f xs s = Inr s' \<and> I s'"
  using assms
proof (induction xs arbitrary: s)
  case Nil
  then show ?case by simp
next
  case (Cons x xs)
  obtain t where t: "f x s = Inr t" "I t" using Cons.prems by force
  have "\<exists>s'. for_each f xs t = Inr s' \<and> I s'"
    using Cons.IH [OF t(2)] Cons.prems(2) by auto
  then show ?case using t by simp
qed



lemma for_each_upt_induct:
  assumes "for_each f [0..<n] s0 = Inr s" and "P 0 s0"
    and "\<And>m t t'. m < n \<Longrightarrow> P m t \<Longrightarrow> f m t = Inr t' \<Longrightarrow> P (Suc m) t'"
  shows "P n s"
  using assms
proof (induction n arbitrary: s)
  case 0
  then show ?case by simp
next
  case (Suc n)
  from Suc.prems(1) obtain t where pre: "for_each f [0..<n] s0 = Inr t" and st: "f n t = Inr s"
    by (auto simp: for_each_append split: sum.splits)
  have "P n t" by (rule Suc.IH [OF pre Suc.prems(2)]) (use Suc.prems(3) in simp)
  then show ?case using Suc.prems(3) [of n t s] st by simp
qed

lemma for_each_establish:
  assumes run: "for_each f xs s = Inr s'" and x0: "x0 \<in> set xs" and I0: "I s"
    and keep: "\<And>x t t'. x \<in> set xs \<Longrightarrow> I t \<Longrightarrow> f x t = Inr t' \<Longrightarrow> I t'"
    and est: "\<And>t t'. I t \<Longrightarrow> f x0 t = Inr t' \<Longrightarrow> D t'"
    and keepD: "\<And>x t t'. x \<in> set xs \<Longrightarrow> I t \<Longrightarrow> D t \<Longrightarrow> f x t = Inr t' \<Longrightarrow> D t'"
  shows "D s'"
proof -
  from x0 obtain ys zs where xs: "xs = ys @ x0 # zs" by (meson split_list)
  from run obtain t1 where r1: "for_each f ys s = Inr t1" and r2: "for_each f (x0 # zs) t1 = Inr s'"
    unfolding xs by (auto simp: for_each_append split: sum.splits)
  from r2 obtain t2 where r3: "f x0 t1 = Inr t2" and r4: "for_each f zs t2 = Inr s'"
    by (auto split: sum.splits)
  have "I t1" by (rule for_each_inv [where I = I, OF r1 I0]) (use keep xs in auto)
  then have "I t2 \<and> D t2" using keep [of x0 t1 t2] est r3 xs by auto
  have "I s' \<and> D s'"
  proof (rule for_each_inv [where I = "\<lambda>t. I t \<and> D t", OF r4 \<open>I t2 \<and> D t2\<close>])
    fix x t t' assume a: "x \<in> set zs" "I t \<and> D t" "f x t = Inr t'"
    then have "x \<in> set xs" using xs by simp
    then show "I t' \<and> D t'" using keep [of x t t'] keepD [of x t t'] a by simp
  qed
  then show ?thesis by simp
qed

subsection \<open>What the passes leave alone\<close>

lemma map_update_same: "f y = f (xs ! i) \<Longrightarrow> map f (xs[i := y]) = map f xs"
  by (induction xs arbitrary: i) (auto split: nat.splits)

lemma map_frame_nth:
  "map f xs = map f ys \<Longrightarrow> i < length ys \<Longrightarrow> f (xs ! i) = f (ys ! i)"
  by (metis length_map nth_map)

lemma frame_add_link:
  "map node_frame (add_link nbi a b lid ns) = map node_frame ns"
  by (auto simp: add_link_def Let_def node_frame_def node_outputs_def
      intro!: map_update_same split: option.splits entry.splits)

lemma frame_remove_link:
  "map node_frame (remove_link nbi a b lid ns) = map node_frame ns"
  by (auto simp: remove_link_def Let_def node_frame_def node_outputs_def
      intro!: map_update_same split: option.splits entry.splits)

lemma add_output_link_eq:
  "add_output_link nbi a b lid ns =
     (if null_port nbi a b ns then Inl TypeError else Inr (add_link nbi a b lid ns))"
  by (auto simp: add_output_link_def add_link_def null_port_def node_outputs_def Let_def
      split: option.splits)

lemma remove_output_link_eq:
  "remove_output_link nbi a b lid ns =
     (if null_port nbi a b ns then Inl TypeError else Inr (remove_link nbi a b lid ns))"
  by (auto simp: remove_output_link_def remove_link_def null_port_def node_outputs_def Let_def
      split: option.splits)

lemma null_port_frame:
  assumes "map node_frame ns' = map node_frame ns" and "nodes_by_id_ok nbi ns"
  shows "null_port nbi a b ns' = null_port nbi a b ns"
proof (cases "nbi a")
  case None
  then show ?thesis by (simp add: null_port_def)
next
  case (Some i)
  then have "i < length ns" using assms(2) by (simp add: nodes_by_id_ok_def)
  from map_frame_nth [OF assms(1) this] show ?thesis
    using Some by (simp add: null_port_def node_frame_def)
qed

lemma null_port_listed:
  assumes "outputs_listed ns" and "nodes_by_id_ok nbi ns"
  shows "\<not> null_port nbi a b ns"
proof (cases "nbi a")
  case None
  then show ?thesis by (simp add: null_port_def)
next
  case (Some i)
  then have "ns ! i \<in> set ns" using assms(2) by (simp add: nodes_by_id_ok_def)
  then show ?thesis using assms(1) Some by (simp add: null_port_def outputs_listed_def)
qed

text \<open>One step of the innermost loop either skips the link id (it is in no link, or the
  array found is empty) or rewrites the link.\<close>

lemma link_step_absent:
  "lm lid = None \<Longrightarrow> link_step nbi lm j name src k lid s = Inr s"
  by (simp add: link_step_def)

lemma link_step_eq:
  assumes "lm lid = Some li" and "6 \<le> l_len (st_links s ! li)"
  shows "link_step nbi lm j name (a, b, c) k lid s =
     (if null_port nbi a b (st_nodes s) then Inl TypeError
      else
        (case node_id (add_link nbi a b lid (st_nodes s) ! j) of
           None \<Rightarrow> Inl KeyError
         | Some nid \<Rightarrow>
             if null_port nbi nid (int k) (add_link nbi a b lid (st_nodes s)) then Inl TypeError
             else
               Inr (s\<lparr>st_nodes := remove_link nbi nid (int k) lid (add_link nbi a b lid (st_nodes s)),
                      st_links := (st_links s)[li := (st_links s ! li)
                                    \<lparr>from_node := a, from_slot := b, ltype := c\<rparr>],
                      rewired := rewired s @ [(name, lid, nid, a)]\<rparr>)))"
  using assms
  by (simp add: link_step_def Let_def add_output_link_eq remove_output_link_eq split: option.splits)

lemma link_step_InrD:
  assumes "link_step nbi lm j name (a, b, c) k lid s = Inr s'" and "lm lid = Some li"
    and "l_len (st_links s ! li) \<noteq> 0"
  obtains nid where "6 \<le> l_len (st_links s ! li)"
    and "node_id (add_link nbi a b lid (st_nodes s) ! j) = Some nid"
    and "\<not> null_port nbi a b (st_nodes s)"
    and "\<not> null_port nbi nid (int k) (add_link nbi a b lid (st_nodes s))"
    and "s' = s\<lparr>st_nodes := remove_link nbi nid (int k) lid (add_link nbi a b lid (st_nodes s)),
                st_links := (st_links s)[li := (st_links s ! li)
                              \<lparr>from_node := a, from_slot := b, ltype := c\<rparr>],
                rewired := rewired s @ [(name, lid, nid, a)]\<rparr>"
proof -
  have six: "6 \<le> l_len (st_links s ! li)"
    using assms by (auto simp: link_step_def split: if_splits)
  note eq = link_step_eq [where lm = lm and lid = lid and s = s and li = li, OF assms(2) six]
  from assms(1) show ?thesis
    unfolding eq
    by (auto split: if_splits option.splits intro: that [OF six])
qed

lemma link_step_cases:
  assumes "link_step nbi lm j name src k lid s = Inr s'"
  obtains (skip) "s' = s"
  | (rewrite) a b c li nid where "src = (a, b, c)" "lm lid = Some li" "6 \<le> l_len (st_links s ! li)"
      "node_id (add_link nbi a b lid (st_nodes s) ! j) = Some nid"
      "s' = s\<lparr>st_nodes := remove_link nbi nid (int k) lid (add_link nbi a b lid (st_nodes s)),
                st_links := (st_links s)[li := (st_links s ! li)
                              \<lparr>from_node := a, from_slot := b, ltype := c\<rparr>],
                rewired := rewired s @ [(name, lid, nid, a)]\<rparr>"
proof (cases "lm lid")
  case None
  then show ?thesis using assms skip by (simp add: link_step_absent)
next
  case (Some li)
  obtain a b c where src: "src = (a, b, c)" by (cases src)
  show ?thesis
  proof (cases "l_len (st_links s ! li) = 0")
    case True
    then show ?thesis using assms Some skip by (simp add: link_step_def)
  next
    case False
    from link_step_InrD [OF assms [unfolded src] Some False] show ?thesis
      using rewrite [OF src Some] by metis
  qed
qed

lemma link_step_frame:
  assumes "link_step nbi lm j name src k lid s = Inr s'"
  shows "map node_frame (st_nodes s') = map node_frame (st_nodes s)"
    and "map link_frame (st_links s') = map link_frame (st_links s)"
    and "skipped_gets s' = skipped_gets s"
  using assms
  by (cases rule: link_step_cases;
      simp add: frame_add_link frame_remove_link link_frame_def map_update_same)+

lemma ids_present_frame:
  "map node_frame ns' = map node_frame ns \<Longrightarrow> ids_present ns' = ids_present ns"
proof -
  assume "map node_frame ns' = map node_frame ns"
  then have "map fst (map node_frame ns') = map fst (map node_frame ns)" by simp
  then have "map node_id ns' = map node_id ns"
    by (simp add: node_frame_def comp_def)
  then have "node_id ` set ns' = node_id ` set ns" by (metis list.set_map)
  then show ?thesis unfolding ids_present_def by (metis (no_types, lifting) image_iff)
qed

lemma port_step_frame:
  assumes "port_step nbi lm j name src k s = Inr s'"
  shows "map node_frame (st_nodes s') = map node_frame (st_nodes s) \<and>
         map link_frame (st_links s') = map link_frame (st_links s) \<and>
         skipped_gets s' = skipped_gets s"
  using assms unfolding port_step_def Let_def
  by (rule for_each_inv) (auto dest: link_step_frame)

lemma get_node_step_other:
  "node_type (st_nodes s ! j) \<noteq> VStr ''GetNode'' \<Longrightarrow> get_node_step nbi lm nts j s = Inr s"
  by (simp add: get_node_step_def)

lemma get_node_step_skipped:
  "node_type (st_nodes s ! j) = VStr ''GetNode'' \<Longrightarrow> nts (bound_name (st_nodes s ! j)) = None \<Longrightarrow>
   get_node_step nbi lm nts j s =
     (case node_id (st_nodes s ! j) of
        None \<Rightarrow> Inl KeyError
      | Some nid \<Rightarrow> Inr (s\<lparr>skipped_gets := skipped_gets s @ [(nid, bound_name (st_nodes s ! j))]\<rparr>))"
  by (simp add: get_node_step_def Let_def)

lemma get_node_step_resolved:
  "node_type (st_nodes s ! j) = VStr ''GetNode'' \<Longrightarrow> nts (bound_name (st_nodes s ! j)) = Some src \<Longrightarrow>
   get_node_step nbi lm nts j s =
     (if outputs (st_nodes s ! j) = Null then Inl TypeError
      else for_each (port_step nbi lm j (bound_name (st_nodes s ! j)) src)
             [0..<length (node_outputs (st_nodes s ! j))] s)"
  by (simp add: get_node_step_def Let_def)

lemma get_node_step_frame:
  assumes "get_node_step nbi lm nts j s = Inr s'"
  shows "map node_frame (st_nodes s') = map node_frame (st_nodes s) \<and>
         map link_frame (st_links s') = map link_frame (st_links s)"
proof (cases "node_type (st_nodes s ! j) = VStr ''GetNode''")
  case False
  then show ?thesis using assms by (simp add: get_node_step_def)
next
  case True
  show ?thesis
  proof (cases "nts (bound_name (st_nodes s ! j))")
    case None
    then show ?thesis using assms True
      by (auto simp: get_node_step_skipped split: option.splits)
  next
    case (Some src)
    then have "for_each (port_step nbi lm j (bound_name (st_nodes s ! j)) src)
                 [0..<length (node_outputs (st_nodes s ! j))] s = Inr s'"
      using assms True by (simp add: get_node_step_resolved split: if_splits)
    then show ?thesis
      by (rule for_each_inv) (auto dest: port_step_frame)
  qed
qed

lemma get_pass_frame:
  assumes "get_pass nbi lm nts s = Inr s'"
  shows "map node_frame (st_nodes s') = map node_frame (st_nodes s) \<and>
         map link_frame (st_links s') = map link_frame (st_links s)"
  using assms unfolding get_pass_def
  by (rule for_each_inv) (auto dest: get_node_step_frame)

lemma bound_name_frame: "node_frame n' = node_frame n \<Longrightarrow> bound_name n' = bound_name n"
  by (simp add: node_frame_def bound_name_def)

lemma same_frame_nodes:
  assumes "same_frame ns ls t" and "j < length ns"
  shows "node_type (st_nodes t ! j) = node_type (ns ! j)"
    and "bound_name (st_nodes t ! j) = bound_name (ns ! j)"
    and "node_id (st_nodes t ! j) = node_id (ns ! j)"
    and "nports (st_nodes t) j = nports ns j"
    and "length (node_outputs (st_nodes t ! j)) = nports ns j"
    and "j < length (st_nodes t)"
    and "(outputs (st_nodes t ! j) = Null) = (outputs (ns ! j) = Null)"
proof -
  have fr: "map node_frame (st_nodes t) = map node_frame ns"
    using assms(1) by (simp add: same_frame_def)
  have nf: "node_frame (st_nodes t ! j) = node_frame (ns ! j)"
    using map_frame_nth [OF fr assms(2)] .
  show "node_type (st_nodes t ! j) = node_type (ns ! j)"
    and "node_id (st_nodes t ! j) = node_id (ns ! j)"
    and "length (node_outputs (st_nodes t ! j)) = nports ns j"
    and "(outputs (st_nodes t ! j) = Null) = (outputs (ns ! j) = Null)"
    using nf by (simp_all add: node_frame_def nports_def)
  then show "nports (st_nodes t) j = nports ns j" by (simp add: nports_def)
  show "bound_name (st_nodes t ! j) = bound_name (ns ! j)" by (rule bound_name_frame [OF nf])
  show "j < length (st_nodes t)" using fr assms(2) by (metis length_map)
qed

lemma same_frame_length:
  "same_frame ns ls t \<Longrightarrow> length (st_nodes t) = length ns \<and> length (st_links t) = length ls"
  unfolding same_frame_def by (metis length_map)

lemma same_frame_links:
  assumes "same_frame ns ls t" and "li < length ls"
  shows "l_id (st_links t ! li) = l_id (ls ! li)"
    and "to_node (st_links t ! li) = to_node (ls ! li)"
    and "to_slot (st_links t ! li) = to_slot (ls ! li)"
    and "l_len (st_links t ! li) = l_len (ls ! li)"
proof -
  have "map link_frame (st_links t) = map link_frame ls"
    using assms(1) by (simp add: same_frame_def)
  from map_frame_nth [OF this assms(2)]
  show "l_id (st_links t ! li) = l_id (ls ! li)"
    and "to_node (st_links t ! li) = to_node (ls ! li)"
    and "to_slot (st_links t ! li) = to_slot (ls ! li)"
    and "l_len (st_links t ! li) = l_len (ls ! li)"
    by (simp_all add: link_frame_def)
qed

lemma same_frame_start:
  "same_frame ns ls \<lparr>st_nodes = ns, st_links = ls, rewired = rw, skipped_gets = sk\<rparr>"
  by (simp add: same_frame_def)

lemma link_step_same_frame:
  "link_step nbi lm j name src k lid t = Inr t' \<Longrightarrow> same_frame ns ls t \<Longrightarrow> same_frame ns ls t'"
  using link_step_frame(1,2) [of nbi lm j name src k lid t t'] by (simp add: same_frame_def)



lemma same_frame_skipped: "same_frame ns ls (t\<lparr>skipped_gets := x\<rparr>) = same_frame ns ls t"
  by (simp add: same_frame_def)

lemma same_frame_null_port:
  "same_frame ns ls t \<Longrightarrow> nodes_by_id_ok nbi ns \<Longrightarrow> null_port nbi a b (st_nodes t) = null_port nbi a b ns"
  by (rule null_port_frame) (simp add: same_frame_def)

text \<open>In a state with the frame of the input, a link id in the link map is rewritten.\<close>

lemma same_frame_live:
  assumes "same_frame ns ls t" and "link_map_ok lm ls" and "lm lid = Some li"
  shows "l_len (st_links t ! li) \<noteq> 0" and "li < length ls" and "li < length (st_links t)"
    and "l_id (ls ! li) = lid"
proof -
  show li: "li < length ls" and "l_id (ls ! li) = lid"
    using assms(2,3) by (simp_all add: link_map_ok_def)
  show "l_len (st_links t ! li) \<noteq> 0"
    using same_frame_links(4) [OF assms(1) li] assms(2,3) by (simp add: link_map_ok_def)
  show "li < length (st_links t)" using li same_frame_length [OF assms(1)] by simp
qed

lemma link_step_effect:
  assumes "link_step nbi lm j name (a, b, c) k lid t = Inr t'" and "lm lid = Some li"
    and "same_frame ns ls t" and "link_map_ok lm ls" and "j < length ns"
  obtains nid where "node_id (ns ! j) = Some nid"
    and "st_nodes t' = remove_link nbi nid (int k) lid (add_link nbi a b lid (st_nodes t))"
    and "st_links t' = (st_links t)[li := (st_links t ! li)\<lparr>from_node := a, from_slot := b, ltype := c\<rparr>]"
    and "rewired t' = rewired t @ [(name, lid, nid, a)]"
    and "skipped_gets t' = skipped_gets t"
    and "6 \<le> l_len (ls ! li)"
proof -
  note live = same_frame_live [OF assms(3,4,2)]
  have jl: "j < length (st_nodes t)" using same_frame_nodes(6) [OF assms(3,5)] .
  from link_step_InrD [OF assms(1,2) live(1)]
  obtain nid where six: "6 \<le> l_len (st_links t ! li)"
    and nid: "node_id (add_link nbi a b lid (st_nodes t) ! j) = Some nid"
    and t': "t' = t\<lparr>st_nodes := remove_link nbi nid (int k) lid (add_link nbi a b lid (st_nodes t)),
                st_links := (st_links t)[li := (st_links t ! li)
                              \<lparr>from_node := a, from_slot := b, ltype := c\<rparr>],
                rewired := rewired t @ [(name, lid, nid, a)]\<rparr>"
    by metis
  have "node_frame (add_link nbi a b lid (st_nodes t) ! j) = node_frame (st_nodes t ! j)"
    using map_frame_nth [OF frame_add_link jl] .
  then have "node_id (st_nodes t ! j) = Some nid" using nid by (simp add: node_frame_def)
  then have 1: "node_id (ns ! j) = Some nid" using same_frame_nodes(3) [OF assms(3,5)] by simp
  have 6: "6 \<le> l_len (ls ! li)" using six same_frame_links(4) [OF assms(3) live(2)] by simp
  show ?thesis by (rule that [OF 1 _ _ _ _ 6]) (simp_all add: t')
qed

subsection \<open>Output ports and the two index dictionaries\<close>

lemma nports_frame:
  "map node_frame ns' = map node_frame ns \<Longrightarrow> j < length ns \<Longrightarrow> nports ns' j = nports ns j"
  using map_frame_nth [of node_frame ns' ns j] by (simp add: nports_def node_frame_def)

lemma links_at_add:
  assumes "j < length ns" and "k < nports ns j"
  shows "links_at (add_link nbi a b lid ns) j k =
     (if nbi a = Some j \<and> b = int k \<and> lid \<notin> set (links_at ns j k)
      then links_at ns j k @ [lid] else links_at ns j k)"
proof (cases "nbi a")
  case None
  then show ?thesis by (simp add: add_link_def)
next
  case (Some i)
  show ?thesis
  proof (cases "i = j")
    case False
    then show ?thesis using Some
      by (auto simp: add_link_def Let_def links_at_def)
  next
    case True
    show ?thesis
    proof (cases "0 \<le> b \<and> b < int (length (node_outputs (ns ! j)))")
      case False
      then show ?thesis using Some True assms
        by (auto simp: add_link_def Let_def nports_def)
    next
      case inr: True
      show ?thesis
      proof (cases "nat b = k")
        case True
        then have bk: "b = int k" using inr by auto
        show ?thesis using Some \<open>i = j\<close> assms inr bk
          by (simp add: add_link_def Let_def links_at_def nports_def port_links_def
              node_outputs_def split: option.splits entry.splits)
      next
        case False
        then have "b \<noteq> int k" by auto
        then show ?thesis using Some \<open>i = j\<close> assms inr False
          by (simp add: add_link_def Let_def links_at_def nports_def port_links_def
              node_outputs_def split: option.splits entry.splits)
      qed
    qed
  qed
qed

lemma links_at_remove:
  assumes "j < length ns" and "k < nports ns j"
  shows "links_at (remove_link nbi nid (int k0) lid ns) j k =
     (if nbi nid = Some j \<and> k0 = k then remove1 lid (links_at ns j k) else links_at ns j k)"
proof (cases "nbi nid")
  case None
  then show ?thesis by (simp add: remove_link_def)
next
  case (Some i)
  show ?thesis
  proof (cases "i = j")
    case False
    then show ?thesis using Some
      by (auto simp: remove_link_def Let_def links_at_def split: option.splits)
  next
    case True
    show ?thesis
    proof (cases "k0 = k")
      case True
      then show ?thesis using Some \<open>i = j\<close> assms
        by (auto simp: remove_link_def Let_def links_at_def nports_def port_links_def
              node_outputs_def remove1_idem split: option.splits entry.splits)
    next
      case False
      then show ?thesis using Some \<open>i = j\<close> assms
        by (auto simp: remove_link_def Let_def links_at_def nports_def port_links_def
              node_outputs_def split: option.splits entry.splits)
    qed
  qed
qed

lemma index_links_sound_aux:
  assumes "\<forall>lid li. m lid = Some li \<longrightarrow> li < i \<and> l_id ((pre @ ls) ! li) = lid" and "length pre = i"
  shows "\<forall>lid li. index_links i ls m lid = Some li \<longrightarrow>
           li < i + length ls \<and> l_id ((pre @ ls) ! li) = lid"
  using assms
proof (induction ls arbitrary: i m pre)
  case Nil
  then show ?case by simp
next
  case (Cons l ls)
  have "\<forall>lid li. (m(l_id l \<mapsto> i)) lid = Some li \<longrightarrow>
          li < Suc i \<and> l_id (((pre @ [l]) @ ls) ! li) = lid"
  proof (intro allI impI)
    fix lid li assume a: "(m(l_id l \<mapsto> i)) lid = Some li"
    show "li < Suc i \<and> l_id (((pre @ [l]) @ ls) ! li) = lid"
    proof (cases "lid = l_id l")
      case True
      then show ?thesis using a Cons.prems(2) by (simp add: nth_append)
    next
      case False
      then have "m lid = Some li" using a by simp
      then have "li < i \<and> l_id ((pre @ l # ls) ! li) = lid" using Cons.prems(1) by blast
      then show ?thesis using Cons.prems(2) by (auto simp: nth_append)
    qed
  qed
  moreover have "length (pre @ [l]) = Suc i" using Cons.prems by simp
  ultimately have "\<forall>lid li. index_links (Suc i) ls (m(l_id l \<mapsto> i)) lid = Some li \<longrightarrow>
           li < Suc i + length ls \<and> l_id (((pre @ [l]) @ ls) ! li) = lid"
    by (rule Cons.IH)
  then show ?case by simp
qed

lemma index_links_sound:
  assumes "links_nonempty ls"
  shows "link_map_ok (index_links 0 ls Map.empty) ls"
  using index_links_sound_aux [of Map.empty 0 "[]" ls] assms
  by (simp add: link_map_ok_def links_nonempty_def)

lemma index_nodes_sound_aux:
  assumes "index_nodes i ns m = Inr m'"
    and "\<forall>x j. m x = Some j \<longrightarrow> j < i \<and> node_id ((pre @ ns) ! j) = Some x" and "length pre = i"
  shows "\<forall>x j. m' x = Some j \<longrightarrow> j < i + length ns \<and> node_id ((pre @ ns) ! j) = Some x"
  using assms
proof (induction ns arbitrary: i m pre)
  case Nil
  then show ?case by simp
next
  case (Cons n ns)
  from Cons.prems(1) obtain k where k: "node_id n = Some k"
    and rest: "index_nodes (Suc i) ns (m(k \<mapsto> i)) = Inr m'"
    by (auto split: option.splits)
  have "\<forall>x j. (m(k \<mapsto> i)) x = Some j \<longrightarrow>
          j < Suc i \<and> node_id (((pre @ [n]) @ ns) ! j) = Some x"
  proof (intro allI impI)
    fix x j assume a: "(m(k \<mapsto> i)) x = Some j"
    show "j < Suc i \<and> node_id (((pre @ [n]) @ ns) ! j) = Some x"
    proof (cases "x = k")
      case True
      then show ?thesis using a k Cons.prems(3) by (simp add: nth_append)
    next
      case False
      then have "m x = Some j" using a by simp
      then have "j < i \<and> node_id ((pre @ n # ns) ! j) = Some x" using Cons.prems(2) by blast
      then show ?thesis using Cons.prems(3) by (auto simp: nth_append)
    qed
  qed
  moreover have "length (pre @ [n]) = Suc i" using Cons.prems by simp
  ultimately have "\<forall>x j. m' x = Some j \<longrightarrow>
      j < Suc i + length ns \<and> node_id (((pre @ [n]) @ ns) ! j) = Some x"
    by (rule Cons.IH [OF rest])
  then show ?case by simp
qed

lemma index_nodes_sound:
  "index_nodes 0 ns Map.empty = Inr nbi \<Longrightarrow> nodes_by_id_ok nbi ns"
  using index_nodes_sound_aux [of 0 ns Map.empty nbi "[]"] by (simp add: nodes_by_id_ok_def)

lemma links_at_link_step:
  assumes "link_step nbi lm j name (a, b, c) k lid t = Inr t'" and "lm lid = Some li"
    and "same_frame ns ls t" and "link_map_ok lm ls" and "j < length ns"
    and "node_id (ns ! j) = Some nid"
    and "j' < length ns" and "k' < nports ns j'"
  shows "links_at (st_nodes t') j' k' =
     (let l0 = links_at (st_nodes t) j' k';
          l1 = (if nbi a = Some j' \<and> b = int k' \<and> lid \<notin> set l0 then l0 @ [lid] else l0)
      in if nbi nid = Some j' \<and> k = k' then remove1 lid l1 else l1)"
proof -
  let ?ns1 = "add_link nbi a b lid (st_nodes t)"
  from link_step_effect [OF assms(1-5)] assms(6)
  have t': "st_nodes t' = remove_link nbi nid (int k) lid ?ns1" by auto
  have j'l: "j' < length (st_nodes t)" and np0: "k' < nports (st_nodes t) j'"
    using same_frame_nodes(4,6) [OF assms(3,7)] assms(8) by simp_all
  have fr: "map node_frame ?ns1 = map node_frame (st_nodes t)" by (rule frame_add_link)
  have len: "j' < length ?ns1" using fr j'l by (metis length_map)
  have np: "k' < nports ?ns1 j'" using nports_frame [OF fr j'l] np0 by simp
  show ?thesis
    unfolding t' links_at_remove [OF len np] links_at_add [OF j'l np0] Let_def by simp
qed

subsection \<open>When the passes return\<close>

lemma links_six_nonempty: "links_six ls \<Longrightarrow> links_nonempty ls"
  by (auto simp: links_six_def links_nonempty_def)

lemma link_step_returns:
  assumes fr: "same_frame ns ls t" and j: "j < length ns"
    and ids: "ids_present ns" and out: "outputs_listed ns" and six: "links_six ls"
    and nbok: "nodes_by_id_ok nbi ns" and lmok: "link_map_ok lm ls"
  shows "\<exists>t'. link_step nbi lm j name src k lid t = Inr t'"
proof (cases "lm lid")
  case None
  then show ?thesis by (simp add: link_step_absent)
next
  case (Some li)
  obtain a b c where src: "src = (a, b, c)" by (cases src)
  note live = same_frame_live [OF fr lmok Some]
  have "l_len (ls ! li) = 6" using six live(2) by (simp add: links_six_def)
  then have len: "6 \<le> l_len (st_links t ! li)"
    using same_frame_links(4) [OF fr live(2)] by simp
  let ?ns1 = "add_link nbi a b lid (st_nodes t)"
  have fr1: "map node_frame ?ns1 = map node_frame ns"
    using frame_add_link [of nbi a b lid "st_nodes t"] fr by (simp add: same_frame_def)
  have n0: "\<not> null_port nbi a b (st_nodes t)"
    using same_frame_null_port [OF fr nbok] null_port_listed [OF out nbok] by simp
  have n1: "\<not> null_port nbi x y ?ns1" for x y
    using null_port_frame [OF fr1 nbok] null_port_listed [OF out nbok] by simp
  have "node_frame (?ns1 ! j) = node_frame (ns ! j)" using map_frame_nth [OF fr1 j] .
  moreover have "node_id (ns ! j) \<noteq> None" using ids j by (simp add: ids_present_def)
  ultimately obtain nid where "node_id (?ns1 ! j) = Some nid" by (auto simp: node_frame_def)
  then show ?thesis
    unfolding src link_step_eq [where lm = lm and lid = lid and s = t and li = li, OF Some len]
    using n0 n1 by simp
qed

lemma port_step_returns:
  assumes fr: "same_frame ns ls t" and j: "j < length ns"
    and ids: "ids_present ns" and out: "outputs_listed ns" and six: "links_six ls"
    and nbok: "nodes_by_id_ok nbi ns" and lmok: "link_map_ok lm ls"
  shows "\<exists>t'. port_step nbi lm j name src k t = Inr t' \<and> same_frame ns ls t'"
  unfolding port_step_def Let_def
proof (rule for_each_returns [where I = "same_frame ns ls", OF fr])
  fix x and u :: gstate assume "same_frame ns ls u"
  from link_step_returns [OF this j ids out six nbok lmok] link_step_same_frame [OF _ this]
  show "\<exists>u'. link_step nbi lm j name src k x u = Inr u' \<and> same_frame ns ls u'" by blast
qed

lemma get_node_step_returns:
  assumes fr: "same_frame ns ls t" and j: "j < length ns"
    and ids: "ids_present ns" and out: "outputs_listed ns" and six: "links_six ls"
    and nbok: "nodes_by_id_ok nbi ns" and lmok: "link_map_ok lm ls"
  shows "\<exists>t'. get_node_step nbi lm nts j t = Inr t' \<and> same_frame ns ls t'"
proof -
  have ports: "\<exists>t'. for_each (port_step nbi lm j name src) ks t = Inr t' \<and> same_frame ns ls t'"
    for ks name src
  proof (rule for_each_returns [where I = "same_frame ns ls", OF fr])
    fix x and u :: gstate assume "same_frame ns ls u"
    from port_step_returns [OF this j ids out six nbok lmok]
    show "\<exists>u'. port_step nbi lm j name src x u = Inr u' \<and> same_frame ns ls u'" by blast
  qed
  have id: "node_id (st_nodes t ! j) \<noteq> None"
    using ids j same_frame_nodes(3) [OF fr j] by (simp add: ids_present_def)
  have nn: "outputs (st_nodes t ! j) \<noteq> Null"
    using out j same_frame_nodes(7) [OF fr j] by (simp add: outputs_listed_def)
  show ?thesis
  proof (cases "node_type (st_nodes t ! j) = VStr ''GetNode''")
    case False
    then show ?thesis using fr by (simp add: get_node_step_other)
  next
    case True
    show ?thesis
    proof (cases "nts (bound_name (st_nodes t ! j))")
      case None
      then show ?thesis using True id fr
        by (auto simp: get_node_step_skipped same_frame_skipped)
    next
      case (Some src)
      then show ?thesis using True ports nn by (simp add: get_node_step_resolved)
    qed
  qed
qed

lemma get_pass_returns:
  assumes ids: "ids_present ns" and out: "outputs_listed ns" and six: "links_six ls"
    and nbok: "nodes_by_id_ok nbi ns" and lmok: "link_map_ok lm ls"
  shows "\<exists>s. get_pass nbi lm nts \<lparr>st_nodes = ns, st_links = ls, rewired = [], skipped_gets = []\<rparr> = Inr s"
proof -
  let ?s0 = "\<lparr>st_nodes = ns, st_links = ls, rewired = [], skipped_gets = []\<rparr>"
  have "\<exists>s. for_each (get_node_step nbi lm nts) [0..<length ns] ?s0 = Inr s \<and> same_frame ns ls s"
  proof (rule for_each_returns [where I = "same_frame ns ls", OF same_frame_start])
    fix x and t :: gstate assume "x \<in> set [0..<length ns]" and "same_frame ns ls t"
    then show "\<exists>t'. get_node_step nbi lm nts x t = Inr t' \<and> same_frame ns ls t'"
      using get_node_step_returns [OF _ _ ids out six nbok lmok] by simp
  qed
  then show ?thesis by (auto simp: get_pass_def)
qed

lemma index_nodes_returns:
  "(\<exists>m'. index_nodes i ns m = Inr m') = ids_present ns"
  by (induction ns arbitrary: i m) (auto simp: ids_present_def split: option.splits)



lemma capture_returns:
  assumes "link_map_ok lm ls" and "links_six ls"
  shows "\<exists>r. capture lm ls n = Inr r"
proof -
  have "l_len (ls ! i) = 6" if "lm x = Some i" for x i
    using assms that by (auto simp: link_map_ok_def links_six_def)
  then show ?thesis
    by (auto simp: capture_def Let_def split: option.splits list.splits)
qed

lemma set_step_returns:
  assumes "node_id n \<noteq> None" and "link_map_ok lm ls" and "links_six ls"
  shows "\<exists>acc'. set_step lm ls n acc = Inr acc'"
  using capture_returns [OF assms(2,3), of n] assms(1)
  by (auto simp: set_step_def split: option.splits prod.splits)

lemma set_pass_returns:
  assumes "ids_present ns" and "link_map_ok lm ls" and "links_six ls"
  shows "\<exists>acc. set_pass lm ls ns = Inr acc"
proof -
  have "\<exists>s'. for_each (set_step lm ls) ns (Map.empty, []) = Inr s' \<and> True"
    by (rule for_each_returns)
      (use assms set_step_returns in \<open>auto simp: ids_present_def\<close>)
  then show ?thesis by (simp add: set_pass_def)
qed

lemma drop_step_returns:
  "node_id n \<noteq> None \<Longrightarrow> \<exists>acc'. drop_step n acc = Inr acc'"
  by (auto simp: drop_step_def split: option.splits)

lemma prune_returns:
  assumes "ids_present ns"
  shows "(\<exists>r. prune d ns ls = Inr r) = (d \<longrightarrow> links_six ls)"
proof -
  have "\<exists>s'. for_each drop_step ns ([], {}) = Inr s' \<and> True"
    by (rule for_each_returns) (use assms drop_step_returns in \<open>auto simp: ids_present_def\<close>)
  then obtain a b where "for_each drop_step ns ([], {}) = Inr (a, b)" by auto
  then show ?thesis by (cases d) (auto simp: prune_def links_six_def)
qed

lemma set_report_key_returns:
  "(\<exists>ex'. set_report_key key v ex = Inr ex') = report_slot_ok ex"
  by (auto simp: set_report_key_def report_slot_ok_def split: option.splits json.splits)

lemma set_report_key_ok:
  "set_report_key key v ex = Inr ex' \<Longrightarrow> report_slot_ok ex'"
  by (auto simp: set_report_key_def report_slot_ok_def update_conv' split: option.splits json.splits)


lemma attach_report_returns:
  "(\<exists>ex'. attach_report n sk cs ex = Inr ex') = report_slot_ok ex"
proof
  assume "\<exists>ex'. attach_report n sk cs ex = Inr ex'"
  then obtain ex1 where "set_report_key ''rewired_count'' (JInt (int n)) ex = Inr ex1"
    by (auto simp: attach_report_def split: sum.splits)
  then show "report_slot_ok ex" using set_report_key_returns by blast
next
  assume "report_slot_ok ex"
  then obtain ex1 where 1: "set_report_key ''rewired_count'' (JInt (int n)) ex = Inr ex1"
    using set_report_key_returns by blast
  then obtain ex2 where 2: "set_report_key ''skipped_gets'' (jskipped sk) ex1 = Inr ex2"
    using set_report_key_returns set_report_key_ok by blast
  then obtain ex3 where 3: "set_report_key ''conflicts'' (jconflicts cs) ex2 = Inr ex3"
    using set_report_key_returns set_report_key_ok by blast
  show "\<exists>ex'. attach_report n sk cs ex = Inr ex'"
    by (simp add: attach_report_def 1 2 3)
qed


lemma rewrite_phase_InrD:
  assumes "rewrite_phase w = Inr (nts, cfs, s)"
  obtains ns ls nbi where "wf_nodes w = Present ns" and "wf_links w = Present ls"
    and "index_nodes 0 ns Map.empty = Inr nbi" and "links_nonempty ls"
    and "set_pass (index_links 0 ls Map.empty) ls ns = Inr (nts, cfs)"
    and "get_pass nbi (index_links 0 ls Map.empty) nts
      \<lparr>st_nodes = ns, st_links = ls, rewired = [], skipped_gets = []\<rparr> = Inr s"
  using assms
  by (auto simp: rewrite_phase_def Let_def links_nonempty_def
      split: entry.splits sum.splits if_splits)

lemma rewrite_phase_Present:
  assumes "wf_nodes w = Present ns" and "wf_links w = Present ls"
  shows "rewrite_phase w =
     (case index_nodes 0 ns Map.empty of
        Inl e \<Rightarrow> Inl e
      | Inr nbi \<Rightarrow>
          if \<not> links_nonempty ls then Inl IndexError
          else
            (case set_pass (index_links 0 ls Map.empty) ls ns of
               Inl e \<Rightarrow> Inl e
             | Inr (nts, cfs) \<Rightarrow>
                 (case get_pass nbi (index_links 0 ls Map.empty) nts
                         \<lparr>st_nodes = ns, st_links = ls, rewired = [], skipped_gets = []\<rparr> of
                    Inl e \<Rightarrow> Inl e
                  | Inr s \<Rightarrow> Inr (nts, cfs, s))))"
  using assms by (auto simp: rewrite_phase_def Let_def links_nonempty_def split: sum.splits)

lemma rewrite_phase_returns:
  assumes "wf_nodes w = Present ns" and "wf_links w = Present ls"
    and "ids_present ns" and "outputs_listed ns" and "links_six ls"
  shows "\<exists>nts cfs s. rewrite_phase w = Inr (nts, cfs, s)"
proof -
  obtain nbi where nbi: "index_nodes 0 ns Map.empty = Inr nbi"
    using assms(3) index_nodes_returns by blast
  have ne: "links_nonempty ls" by (rule links_six_nonempty [OF assms(5)])
  note lmok = index_links_sound [OF ne]
  obtain nts cfs where sp: "set_pass (index_links 0 ls Map.empty) ls ns = Inr (nts, cfs)"
    using set_pass_returns [OF assms(3) lmok assms(5)] by fastforce
  obtain s where "get_pass nbi (index_links 0 ls Map.empty) nts
      \<lparr>st_nodes = ns, st_links = ls, rewired = [], skipped_gets = []\<rparr> = Inr s"
    using get_pass_returns [OF assms(3,4,5) index_nodes_sound [OF nbi] lmok] by blast
  then show ?thesis
    by (simp add: rewrite_phase_Present [OF assms(1,2)] nbi sp ne)
qed

lemma rewrite_phase_ids:
  assumes "rewrite_phase w = Inr (nts, cfs, s)"
  shows "ids_present (st_nodes s)"
proof -
  from assms obtain ns ls nbi where w: "wf_nodes w = Present ns" "wf_links w = Present ls"
    and nbi: "index_nodes 0 ns Map.empty = Inr nbi"
    and gp: "get_pass nbi (index_links 0 ls Map.empty) nts
      \<lparr>st_nodes = ns, st_links = ls, rewired = [], skipped_gets = []\<rparr> = Inr s"
    by (rule rewrite_phase_InrD)
  have "ids_present ns" using nbi index_nodes_returns by blast
  moreover have "map node_frame (st_nodes s) = map node_frame ns"
    using get_pass_frame [OF gp] by simp
  ultimately show ?thesis using ids_present_frame [of "st_nodes s" ns] by simp
qed

lemma rewrite_phase_frame:
  assumes "rewrite_phase w = Inr (nts, cfs, s)" and "wf_nodes w = Present ns" and "wf_links w = Present ls"
  shows "map node_frame (st_nodes s) = map node_frame ns"
    and "map link_frame (st_links s) = map link_frame ls"
proof -
  from assms(1) obtain ns0 ls0 nbi where w: "wf_nodes w = Present ns0" "wf_links w = Present ls0"
    and gp: "get_pass nbi (index_links 0 ls0 Map.empty) nts
      \<lparr>st_nodes = ns0, st_links = ls0, rewired = [], skipped_gets = []\<rparr> = Inr s"
    by (rule rewrite_phase_InrD)
  from get_pass_frame [OF gp] w assms(2,3)
  show "map node_frame (st_nodes s) = map node_frame ns"
    and "map link_frame (st_links s) = map link_frame ls" by simp_all
qed

lemma links_six_frame:
  "map link_frame ls' = map link_frame ls \<Longrightarrow> links_six ls' = links_six ls"
proof -
  assume "map link_frame ls' = map link_frame ls"
  then have "map (\<lambda>fr. snd (snd (snd fr))) (map link_frame ls') =
      map (\<lambda>fr. snd (snd (snd fr))) (map link_frame ls)" by simp
  then have "map l_len ls' = map l_len ls" by (simp add: link_frame_def comp_def)
  then have "l_len ` set ls' = l_len ` set ls" by (metis list.set_map)
  then show ?thesis unfolding links_six_def by (metis (no_types, lifting) image_iff)
qed

subsection \<open>The exceptions of the passes\<close>











subsection \<open>The report\<close>

lemma set_report_key_merge:
  assumes "report_slot_ok ex"
  shows "set_report_key key v ex =
     Inr (Some (JObj (AList.update ''__hardline_rewire''
                        (JObj (AList.update key v (prior_report ex))) (prior_extra ex))))"
proof (cases ex)
  case None
  then show ?thesis
    by (simp add: set_report_key_def prior_report_def prior_extra_def)
next
  case (Some e)
  then obtain d where e: "e = JObj d"
    using assms by (cases e) (simp_all add: report_slot_ok_def)
  show ?thesis
  proof (cases "map_of d ''__hardline_rewire''")
    case None
    then show ?thesis using Some e
      by (simp add: set_report_key_def prior_report_def prior_extra_def)
  next
    case r: (Some r)
    then obtain r' where "r = JObj r'"
      using assms Some e by (cases r) (simp_all add: report_slot_ok_def)
    then show ?thesis using Some e r
      by (simp add: set_report_key_def prior_report_def prior_extra_def)
  qed
qed

lemma prior_after_set:
  "prior_extra (Some (JObj (AList.update ''__hardline_rewire'' (JObj r) d))) =
     AList.update ''__hardline_rewire'' (JObj r) d"
  "prior_report (Some (JObj (AList.update ''__hardline_rewire'' (JObj r) d))) = r"
  by (simp_all add: prior_extra_def prior_report_def update_conv')

lemma report_slot_ok_after_set:
  "report_slot_ok (Some (JObj (AList.update ''__hardline_rewire'' (JObj r) d)))"
  by (simp add: report_slot_ok_def update_conv')

lemma attach_report_merge:
  assumes "report_slot_ok ex"
  shows "attach_report n sk cs ex =
     Inr (Some (JObj (AList.update ''__hardline_rewire''
       (JObj (AList.update ''conflicts'' (jconflicts cs)
               (AList.update ''skipped_gets'' (jskipped sk)
                 (AList.update ''rewired_count'' (JInt (int n)) (prior_report ex)))))
       (prior_extra ex))))"
  unfolding attach_report_def
  by (simp add: set_report_key_merge [OF assms] set_report_key_merge [OF report_slot_ok_after_set]
      prior_after_set)

lemma convert_returns:
  assumes "wf_nodes w = Present ns" and "wf_links w = Present ls" and "ids_present ns"
    and "outputs_listed ns" and "links_six ls" and "report_slot_ok (wf_extra w)"
  obtains nts cfs s ns' ls' where "rewrite_phase w = Inr (nts, cfs, s)"
    and "prune d (st_nodes s) (st_links s) = Inr (ns', ls')"
    and "convert_setget_to_hardlines w d =
      Inr (w\<lparr>wf_nodes := Present ns', wf_links := Present ls',
             wf_extra := Some (JObj (AList.update ''__hardline_rewire''
               (JObj (AList.update ''conflicts'' (jconflicts cfs)
                 (AList.update ''skipped_gets'' (jskipped (skipped_gets s))
                   (AList.update ''rewired_count'' (JInt (int (length (rewired s))))
                     (prior_report (wf_extra w))))))
               (prior_extra (wf_extra w))))\<rparr>)"
proof -
  obtain nts cfs s where rp: "rewrite_phase w = Inr (nts, cfs, s)"
    using rewrite_phase_returns [OF assms(1-5)] by blast
  have "links_six (st_links s)"
    using links_six_frame [OF rewrite_phase_frame(2) [OF rp assms(1,2)]] assms(5) by simp
  then obtain ns' ls' where pr: "prune d (st_nodes s) (st_links s) = Inr (ns', ls')"
    using prune_returns [OF rewrite_phase_ids [OF rp], of d "st_links s"] by fastforce
  show ?thesis
    by (rule that [OF rp pr])
      (simp add: convert_setget_to_hardlines_def rp pr attach_report_merge [OF assms(6)])
qed

lemma convert_InrD:
  assumes "convert_setget_to_hardlines w d = Inr w'"
  obtains nts cfs s ns' ls' where "rewrite_phase w = Inr (nts, cfs, s)"
    and "prune d (st_nodes s) (st_links s) = Inr (ns', ls')"
    and "report_slot_ok (wf_extra w)"
    and "w' = w\<lparr>wf_nodes := Present ns', wf_links := Present ls',
             wf_extra := Some (JObj (AList.update ''__hardline_rewire''
               (JObj (AList.update ''conflicts'' (jconflicts cfs)
                 (AList.update ''skipped_gets'' (jskipped (skipped_gets s))
                   (AList.update ''rewired_count'' (JInt (int (length (rewired s))))
                     (prior_report (wf_extra w))))))
               (prior_extra (wf_extra w))))\<rparr>"
proof -
  from assms obtain nts cfs s ns' ls' ex' where rp: "rewrite_phase w = Inr (nts, cfs, s)"
    and pr: "prune d (st_nodes s) (st_links s) = Inr (ns', ls')"
    and ar: "attach_report (length (rewired s)) (skipped_gets s) cfs (wf_extra w) = Inr ex'"
    and w': "w' = w\<lparr>wf_nodes := Present ns', wf_links := Present ls', wf_extra := ex'\<rparr>"
    unfolding convert_setget_to_hardlines_def
    by (auto split: sum.splits prod.splits)
  have ok: "report_slot_ok (wf_extra w)" using ar attach_report_returns by blast
  show ?thesis
    by (rule that [OF rp pr ok]) (use ar w' in \<open>simp add: attach_report_merge [OF ok]\<close>)
qed






lemma drop_loop:
  "for_each drop_step ns (acc, D) = Inr (acc', D') \<Longrightarrow>
   acc' = acc @ filter (\<lambda>n. \<not> is_routing n) ns \<and> D' = D \<union> routing_ids ns"
proof (induction ns arbitrary: acc D)
  case Nil
  then show ?case by (simp add: routing_ids_def)
next
  case (Cons n ns)
  show ?case
  proof (cases "is_routing n")
    case True
    obtain t where t: "drop_step n (acc, D) = Inr t" and rest0: "for_each drop_step ns t = Inr (acc', D')"
      using Cons.prems by (auto split: sum.splits)
    from t True obtain x where x: "node_id n = Some x" and "t = (acc, insert x D)"
      by (auto simp: drop_step_def split: option.splits)
    with rest0 have rest: "for_each drop_step ns (acc, insert x D) = Inr (acc', D')" by simp
    have "routing_ids (n # ns) = insert x (routing_ids ns)"
      using True x by (auto simp: routing_ids_def)
    then show ?thesis using Cons.IH [OF rest] True by auto
  next
    case False
    then have "drop_step n (acc, D) = Inr (acc @ [n], D)" by (simp add: drop_step_def)
    then have rest: "for_each drop_step ns (acc @ [n], D) = Inr (acc', D')"
      using Cons.prems by simp
    have "routing_ids (n # ns) = routing_ids ns"
      using False by (auto simp: routing_ids_def)
    then show ?thesis using Cons.IH [OF rest] False by simp
  qed
qed

lemma prune_drop:
  assumes "prune True ns ls = Inr (ns', ls')"
  shows "ns' = filter (\<lambda>n. \<not> is_routing n) ns"
    and "ls' = filter (\<lambda>l. from_node l \<notin> routing_ids ns \<and> to_node l \<notin> routing_ids ns) ls"
proof -
  from assms obtain D where loop: "for_each drop_step ns ([], {}) = Inr (ns', D)"
    and ls': "ls' = keep_links D ls"
    by (auto simp: prune_def split: sum.splits if_splits)
  from drop_loop [OF loop] show "ns' = filter (\<lambda>n. \<not> is_routing n) ns" by simp
  from drop_loop [OF loop] have "D = routing_ids ns" by simp
  then show "ls' = filter (\<lambda>l. from_node l \<notin> routing_ids ns \<and> to_node l \<notin> routing_ids ns) ls"
    using ls' by (simp add: keep_links_def)
qed

lemma routing_ids_frame:
  assumes "map node_frame ns' = map node_frame ns"
  shows "routing_ids ns' = routing_ids ns"
proof -
  define P where "P fr x = ((fst (snd fr) = VStr ''SetNode'' \<or> fst (snd fr) = VStr ''GetNode'') \<and>
      fst fr = Some x)" for fr :: "val option \<times> val \<times> val list option \<times> in_port list option \<times> nat \<times> bool"
      and x :: val
  have eq: "routing_ids xs = {x. \<exists>fr \<in> node_frame ` set xs. P fr x}" for xs
    by (auto simp: routing_ids_def is_routing_def node_frame_def P_def)
  have "node_frame ` set ns' = node_frame ` set ns" using assms by (metis list.set_map)
  then show ?thesis unfolding eq by simp
qed






subsection \<open>When the call raises\<close>


lemma example_shape:
  "wf_nodes example_workflow = Present example_nodes"
  "wf_links example_workflow = Present example_links"
  "ids_present example_nodes" "outputs_listed example_nodes" "links_six example_links"
  "report_slot_ok (wf_extra example_workflow)"
  by (simp_all add: example_workflow_def example_nodes_def example_links_def mk_node_def
      mk_link_def ids_present_def outputs_listed_def links_six_def report_slot_ok_def)



text \<open>Three more shapes that have both collections and make the call raise: a link of
  five elements when pruning is asked for (line 177), \<open>'outputs': null\<close> on a GetNode whose
  name is bound (line 150), and \<open>'links': null\<close> (line 92).\<close>

lemma short_link_raises:
  "convert_setget_to_hardlines short_link_workflow True = Inl ValueError"
  by code_simp

lemma null_outputs_raises:
  "convert_setget_to_hardlines null_outputs_workflow False = Inl TypeError"
  by code_simp

lemma null_links_raises:
  "convert_setget_to_hardlines null_links_workflow False = Inl TypeError"
  by code_simp

subsection \<open>Pruning\<close>

text \<open>
  C5.  With \<open>drop_setget\<close> set, whenever the call returns a workflow: the returned node list
  is the node list as it stood after the rewrite pass with the SetNodes and GetNodes
  filtered out, so it holds no SetNode and no GetNode and keeps the others in their order;
  the returned link list is the link list as it stood after the rewrite pass with the links
  filtered out whose source or target node id is the id of a SetNode or GetNode, so every
  surviving link has all six fields as the rewrite pass left them and neither endpoint is a
  dropped node.  The call does return when both collections are lists, every node has an
  id, every link has six elements, no node has \<open>'outputs': null\<close> and the \<open>extra\<close> area can
  take the report.
\<close>

theorem pruning_is_a_filter:
  assumes "wf_nodes w = Present ns" and "wf_links w = Present ls"
  shows "(ids_present ns \<and> outputs_listed ns \<and> links_six ls \<and> report_slot_ok (wf_extra w) \<longrightarrow>
            (\<exists>w'. convert_setget_to_hardlines w True = Inr w')) \<and>
         (\<forall>w'. convert_setget_to_hardlines w True = Inr w' \<longrightarrow>
            (\<exists>nts cfs s.
               rewrite_phase w = Inr (nts, cfs, s) \<and>
               wf_nodes w' = Present (filter (\<lambda>n. \<not> is_routing n) (st_nodes s)) \<and>
               wf_links w' =
                 Present (filter (\<lambda>l. from_node l \<notin> routing_ids ns \<and> to_node l \<notin> routing_ids ns)
                            (st_links s)) \<and>
               routing_ids (st_nodes s) = routing_ids ns \<and>
               map node_frame (st_nodes s) = map node_frame ns \<and>
               (\<forall>ns'. wf_nodes w' = Present ns' \<longrightarrow> (\<forall>n \<in> set ns'. \<not> is_routing n)) \<and>
               (\<forall>ls'. wf_links w' = Present ls' \<longrightarrow>
                  (\<forall>l \<in> set ls'. from_node l \<notin> routing_ids ns \<and> to_node l \<notin> routing_ids ns \<and>
                                  l_len l = 6))))"
proof (rule conjI; intro allI impI)
  assume "ids_present ns \<and> outputs_listed ns \<and> links_six ls \<and> report_slot_ok (wf_extra w)"
  then show "\<exists>w'. convert_setget_to_hardlines w True = Inr w'"
    using convert_returns [of w ns ls True] assms by metis
next
  fix w' assume cv: "convert_setget_to_hardlines w True = Inr w'"
  then obtain nts cfs s ns' ls' where rp: "rewrite_phase w = Inr (nts, cfs, s)"
    and pr: "prune True (st_nodes s) (st_links s) = Inr (ns', ls')"
    and w': "w' = w\<lparr>wf_nodes := Present ns', wf_links := Present ls',
             wf_extra := Some (JObj (AList.update ''__hardline_rewire''
               (JObj (AList.update ''conflicts'' (jconflicts cfs)
                 (AList.update ''skipped_gets'' (jskipped (skipped_gets s))
                   (AList.update ''rewired_count'' (JInt (int (length (rewired s))))
                     (prior_report (wf_extra w))))))
               (prior_extra (wf_extra w))))\<rparr>"
    by (rule convert_InrD)
  have fr: "map node_frame (st_nodes s) = map node_frame ns"
    by (rule rewrite_phase_frame [OF rp assms(1,2)])
  have ri: "routing_ids (st_nodes s) = routing_ids ns"
    by (rule routing_ids_frame [OF fr])
  have six: "links_six (st_links s)"
    using prune_returns [OF rewrite_phase_ids [OF rp], of True "st_links s"] pr by auto
  have n: "wf_nodes w' = Present (filter (\<lambda>n. \<not> is_routing n) (st_nodes s))"
    using prune_drop(1) [OF pr] w' by simp
  have l: "wf_links w' =
      Present (filter (\<lambda>l. from_node l \<notin> routing_ids ns \<and> to_node l \<notin> routing_ids ns)
                 (st_links s))"
    using prune_drop(2) [OF pr] ri w' by simp
  have n': "\<forall>ns'. wf_nodes w' = Present ns' \<longrightarrow> (\<forall>n \<in> set ns'. \<not> is_routing n)"
    unfolding n by simp
  have l': "\<forall>ls'. wf_links w' = Present ls' \<longrightarrow>
        (\<forall>l \<in> set ls'. from_node l \<notin> routing_ids ns \<and> to_node l \<notin> routing_ids ns \<and> l_len l = 6)"
    unfolding l using six by (simp add: links_six_def)
  from rp n l ri fr n' l'
  show "\<exists>nts cfs s.
               rewrite_phase w = Inr (nts, cfs, s) \<and>
               wf_nodes w' = Present (filter (\<lambda>n. \<not> is_routing n) (st_nodes s)) \<and>
               wf_links w' =
                 Present (filter (\<lambda>l. from_node l \<notin> routing_ids ns \<and> to_node l \<notin> routing_ids ns)
                            (st_links s)) \<and>
               routing_ids (st_nodes s) = routing_ids ns \<and>
               map node_frame (st_nodes s) = map node_frame ns \<and>
               (\<forall>ns'. wf_nodes w' = Present ns' \<longrightarrow> (\<forall>n \<in> set ns'. \<not> is_routing n)) \<and>
               (\<forall>ls'. wf_links w' = Present ls' \<longrightarrow>
                  (\<forall>l \<in> set ls'. from_node l \<notin> routing_ids ns \<and> to_node l \<notin> routing_ids ns \<and>
                                  l_len l = 6))"
    by - (intro exI conjI, assumption+)
qed

theorem pruning_is_a_filter_witness:
  "\<exists>w' nts cfs s.
     convert_setget_to_hardlines example_workflow True = Inr w' \<and>
     rewrite_phase example_workflow = Inr (nts, cfs, s) \<and>
     wf_nodes w' = Present (filter (\<lambda>n. \<not> is_routing n) (st_nodes s)) \<and>
     wf_links w' = Present (filter (\<lambda>l. from_node l \<notin> routing_ids example_nodes \<and>
                                     to_node l \<notin> routing_ids example_nodes) (st_links s)) \<and>
     routing_ids (st_nodes s) = routing_ids example_nodes \<and>
     map node_frame (st_nodes s) = map node_frame example_nodes \<and>
     (\<forall>ns'. wf_nodes w' = Present ns' \<longrightarrow> (\<forall>n \<in> set ns'. \<not> is_routing n)) \<and>
     (\<forall>ls'. wf_links w' = Present ls' \<longrightarrow>
        (\<forall>l \<in> set ls'. from_node l \<notin> routing_ids example_nodes \<and>
                        to_node l \<notin> routing_ids example_nodes \<and> l_len l = 6))"
proof -
  note main = pruning_is_a_filter [OF example_shape(1,2)]
  from main [THEN conjunct1] example_shape(3-6)
  obtain w' where cv: "convert_setget_to_hardlines example_workflow True = Inr w'" by blast
  from main [THEN conjunct2, rule_format, OF cv] cv show ?thesis
    by (elim exE conjE) (intro exI conjI, assumption+)
qed

subsection \<open>Workflows without routing nodes\<close>




subsection \<open>The report in the \<open>extra\<close> area\<close>





subsection \<open>The write-port pass\<close>

lemma find_snoc:
  "find P (xs @ [y]) = (case find P xs of Some x \<Rightarrow> Some x | None \<Rightarrow> if P y then Some y else None)"
  by (induction xs) auto

lemma map_filter_snoc:
  "List.map_filter f (xs @ [y]) =
     List.map_filter f xs @ (case f y of None \<Rightarrow> [] | Some e \<Rightarrow> [e])"
  by (auto simp: map_filter_def split: option.splits)

lemma bindings_snoc:
  "bindings lm ls (ns @ [n]) =
     bindings lm ls ns @
       (case capture lm ls n of Inr (Some (name, c)) \<Rightarrow> [(name, c, node_id n)] | _ \<Rightarrow> [])"
  by (simp add: bindings_def map_filter_snoc split: option.splits sum.splits)

lemma first_binding_snoc:
  "first_binding (bs @ [b]) name =
     (case first_binding bs name of
        Some t \<Rightarrow> Some t
      | None \<Rightarrow> if fst b = name then Some (fst (snd b)) else None)"
  by (auto simp: first_binding_def find_snoc split: option.splits)

lemma first_binding_mem:
  assumes "b \<in> set bs"
  shows "first_binding bs (fst b) \<noteq> None"
proof -
  have "find (\<lambda>b'. fst b' = fst b) bs \<noteq> None"
    unfolding find_None_iff using assms by blast
  then show ?thesis by (simp add: first_binding_def)
qed

lemma map_filter_cong_set:
  "(\<And>x. x \<in> set xs \<Longrightarrow> f x = g x) \<Longrightarrow> List.map_filter f xs = List.map_filter g xs"
proof (induction xs)
  case Nil
  then show ?case by (simp add: map_filter_simps)
next
  case (Cons a xs)
  have "f a = g a" using Cons.prems by simp
  moreover have "List.map_filter f xs = List.map_filter g xs"
    using Cons.IH Cons.prems by simp
  ultimately show ?case by (simp add: map_filter_simps split: option.splits)
qed

lemma divergent_snoc:
  "divergent (bs @ [b]) =
     divergent bs @ (case conflict_entry (first_binding (bs @ [b])) b of None \<Rightarrow> [] | Some e \<Rightarrow> [e])"
proof -
  have "conflict_entry (first_binding (bs @ [b])) x = conflict_entry (first_binding bs) x"
    if "x \<in> set bs" for x
  proof -
    obtain name c i where x: "x = (name, c, i)" by (cases x)
    have "first_binding bs name \<noteq> None" using first_binding_mem [OF that] x by simp
    then have "first_binding (bs @ [b]) name = first_binding bs name"
      by (auto simp: first_binding_snoc)
    then show ?thesis by (simp add: conflict_entry_def x)
  qed
  then have "List.map_filter (conflict_entry (first_binding (bs @ [b]))) bs = divergent bs"
    unfolding divergent_def by (rule map_filter_cong_set)
  then show ?thesis
    by (simp add: divergent_def map_filter_snoc)
qed

lemma set_loop:
  assumes "for_each (set_step lm ls) ns (Map.empty, []) = Inr (m, cf)"
  shows "m = first_binding (bindings lm ls ns) \<and> cf = divergent (bindings lm ls ns)"
  using assms
proof (induction ns arbitrary: m cf rule: rev_induct)
  case Nil
  then show ?case
    by (auto simp: bindings_def map_filter_simps first_binding_def divergent_def)
next
  case (snoc n ns)
  from snoc.prems obtain m0 cf0 where pre: "for_each (set_step lm ls) ns (Map.empty, []) = Inr (m0, cf0)"
    and step: "set_step lm ls n (m0, cf0) = Inr (m, cf)"
    by (auto simp: for_each_append split: sum.splits)
  let ?B = "bindings lm ls ns"
  from snoc.IH [OF pre] have m0: "m0 = first_binding ?B" and cf0: "cf0 = divergent ?B" by simp_all
  from step obtain r where cap: "capture lm ls n = Inr r"
    by (auto simp: set_step_def split: sum.splits)
  show ?case
  proof (cases r)
    case None
    then show ?thesis using step m0 cf0 cap by (simp add: set_step_def bindings_snoc)
  next
    case (Some nc)
    obtain name c where nc: "nc = (name, c)" by (cases nc)
    note Some = cap [unfolded Some]
    have B': "bindings lm ls (ns @ [n]) = ?B @ [(name, c, node_id n)]"
      by (simp add: bindings_snoc Some nc)
    show ?thesis
    proof (cases "first_binding ?B name")
      case None
      then have "m = m0(name \<mapsto> c)" "cf = cf0"
        using step Some nc m0 by (auto simp: set_step_def)
      moreover have "first_binding (?B @ [(name, c, node_id n)]) = (first_binding ?B)(name \<mapsto> c)"
        using None by (auto simp: first_binding_snoc fun_eq_iff split: option.splits)
      moreover have "conflict_entry (first_binding (?B @ [(name, c, node_id n)])) (name, c, node_id n) = None"
        using None by (simp add: conflict_entry_def first_binding_snoc split: option.splits)
      ultimately show ?thesis using m0 cf0 by (simp add: B' divergent_snoc)
    next
      case p: (Some p)
      have fb: "first_binding (?B @ [(name, c, node_id n)]) = first_binding ?B"
        using p by (auto simp: first_binding_snoc fun_eq_iff split: option.splits)
      show ?thesis
      proof (cases "p = c")
        case True
        then have "m = m0(name \<mapsto> c)" "cf = cf0"
          using step Some nc m0 p by (auto simp: set_step_def)
        moreover have "m0(name \<mapsto> c) = m0" using p True m0 by (auto simp: fun_eq_iff)
        moreover have "conflict_entry (first_binding ?B) (name, c, node_id n) = None"
          using p True by (simp add: conflict_entry_def split: option.splits)
        ultimately show ?thesis using m0 cf0 by (simp add: B' divergent_snoc fb)
      next
        case False
        then obtain nid where nid: "node_id n = Some nid" and "m = m0" "cf = cf0 @ [(name, p, c, nid)]"
          using step Some nc m0 p by (auto simp: set_step_def split: option.splits)
        moreover have "conflict_entry (first_binding ?B) (name, c, node_id n) = Some (name, p, c, nid)"
          using p False nid by (simp add: conflict_entry_def)
        ultimately show ?thesis using m0 cf0 unfolding B' divergent_snoc fb by simp
      qed
    qed
  qed
qed



lemma rewrite_phase_table:
  assumes "rewrite_phase w = Inr (nts, cfs, s)" and "wf_nodes w = Present ns" and "wf_links w = Present ls"
  shows "nts = first_binding (bindings (index_links 0 ls Map.empty) ls ns)"
    and "cfs = divergent (bindings (index_links 0 ls Map.empty) ls ns)"
proof -
  from assms obtain nbi where
    sp: "set_pass (index_links 0 ls Map.empty) ls ns = Inr (nts, cfs)"
    by (auto elim!: rewrite_phase_InrD)
  from set_loop [OF sp [unfolded set_pass_def]]
  show "nts = first_binding (bindings (index_links 0 ls Map.empty) ls ns)"
    and "cfs = divergent (bindings (index_links 0 ls Map.empty) ls ns)" by simp_all
qed


subsection \<open>Lifting a property of one rewrite to the loops\<close>

lemma port_step_keeps:
  assumes sk: "steps_keep nbi lm nts ns ls Pos I"
    and j: "j < length ns" "node_type (ns ! j) = VStr ''GetNode''"
      "nts (bound_name (ns ! j)) = Some src"
    and k: "k < nports ns j" "Pos j k"
    and t: "I t" "same_frame ns ls t"
    and run: "port_step nbi lm j (bound_name (ns ! j)) src k t = Inr t'"
  shows "I t' \<and> same_frame ns ls t'"
proof -
  let ?xs = "links_at (st_nodes t) j k"
  have run': "for_each (link_step nbi lm j (bound_name (ns ! j)) src k) ?xs t = Inr t'"
    using run by (simp add: port_step_def links_at_def)
  show ?thesis
  proof (rule for_each_inv [OF run', where I = "\<lambda>u. I u \<and> same_frame ns ls u"])
    show "I t \<and> same_frame ns ls t" using t by simp
  next
    fix x and u u' :: gstate
    assume x: "x \<in> set ?xs" and u: "I u \<and> same_frame ns ls u"
      and st: "link_step nbi lm j (bound_name (ns ! j)) src k x u = Inr u'"
    have "I u'"
      using sk j k t x u st unfolding steps_keep_def by blast
    then show "I u' \<and> same_frame ns ls u'"
      using link_step_same_frame [OF st] u by simp
  qed
qed

lemma ports_loop_keeps:
  assumes sk: "steps_keep nbi lm nts ns ls Pos I"
    and j: "j < length ns" "node_type (ns ! j) = VStr ''GetNode''"
      "nts (bound_name (ns ! j)) = Some src"
    and ks: "\<forall>k \<in> set ks. k < nports ns j \<and> Pos j k"
    and t: "I t" "same_frame ns ls t"
    and run: "for_each (port_step nbi lm j (bound_name (ns ! j)) src) ks t = Inr t'"
  shows "I t' \<and> same_frame ns ls t'"
proof (rule for_each_inv [OF run, where I = "\<lambda>u. I u \<and> same_frame ns ls u"])
  show "I t \<and> same_frame ns ls t" using t by simp
next
  fix x and u u' :: gstate
  assume x: "x \<in> set ks" and u: "I u \<and> same_frame ns ls u"
    and st: "port_step nbi lm j (bound_name (ns ! j)) src x u = Inr u'"
  show "I u' \<and> same_frame ns ls u'"
    using port_step_keeps [OF sk j _ _ _ _ st] ks x u by blast
qed

lemma get_node_step_cases:
  assumes "same_frame ns ls t" and "j < length ns"
    and "get_node_step nbi lm nts j t = Inr t'"
  obtains (other) "node_type (ns ! j) \<noteq> VStr ''GetNode''" "t' = t"
  | (skipped) nid where "node_type (ns ! j) = VStr ''GetNode''" "nts (bound_name (ns ! j)) = None"
      "node_id (ns ! j) = Some nid" "t' = t\<lparr>skipped_gets := skipped_gets t @ [(nid, bound_name (ns ! j))]\<rparr>"
  | (resolved) src where "node_type (ns ! j) = VStr ''GetNode''" "nts (bound_name (ns ! j)) = Some src"
      "for_each (port_step nbi lm j (bound_name (ns ! j)) src) [0..<nports ns j] t = Inr t'"
proof (cases "node_type (ns ! j) = VStr ''GetNode''")
  case False
  then have "node_type (st_nodes t ! j) \<noteq> VStr ''GetNode''"
    using same_frame_nodes(1) [OF assms(1,2)] by simp
  then show ?thesis using assms(3) other False by (simp add: get_node_step_other)
next
  case True
  then have ty: "node_type (st_nodes t ! j) = VStr ''GetNode''"
    using same_frame_nodes(1) [OF assms(1,2)] by simp
  note nm = same_frame_nodes(2) [OF assms(1,2)]
  show ?thesis
  proof (cases "nts (bound_name (ns ! j))")
    case None
    then have "nts (bound_name (st_nodes t ! j)) = None" using nm by simp
    from get_node_step_skipped [where nts = nts and nbi = nbi and lm = lm, OF ty this] assms(3)
    obtain nid where
      "node_id (st_nodes t ! j) = Some nid"
      "t' = t\<lparr>skipped_gets := skipped_gets t @ [(nid, bound_name (st_nodes t ! j))]\<rparr>"
      by (auto split: option.splits)
    then show ?thesis
      using skipped [OF True None] nm same_frame_nodes(3) [OF assms(1,2)] by simp
  next
    case (Some src)
    then have "nts (bound_name (st_nodes t ! j)) = Some src" using nm by simp
    from get_node_step_resolved [where nts = nts and nbi = nbi and lm = lm, OF ty this] assms(3)
    have "for_each (port_step nbi lm j (bound_name (ns ! j)) src) [0..<nports ns j] t = Inr t'"
      using nm same_frame_nodes(5) [OF assms(1,2)] by (simp split: if_splits)
    then show ?thesis using resolved [OF True Some] by simp
  qed
qed

lemma get_node_step_keeps:
  assumes sk: "steps_keep nbi lm nts ns ls Pos I"
    and j: "j < length ns" "\<forall>k < nports ns j. Pos j k"
    and t: "I t" "same_frame ns ls t"
    and run: "get_node_step nbi lm nts j t = Inr t'"
  shows "I t' \<and> same_frame ns ls t'"
  using t(2) j(1) run
proof (cases rule: get_node_step_cases)
  case other
  then show ?thesis using t by simp
next
  case (skipped nid)
  then show ?thesis using t sk by (simp add: steps_keep_def same_frame_skipped)
next
  case (resolved src)
  show ?thesis
    by (rule ports_loop_keeps [OF sk j(1) resolved(1,2) _ t resolved(3)]) (use j(2) in simp)
qed

lemma nodes_loop_keeps:
  assumes sk: "steps_keep nbi lm nts ns ls Pos I"
    and js: "\<forall>j \<in> set js. j < length ns \<and> (\<forall>k < nports ns j. Pos j k)"
    and t: "I t" "same_frame ns ls t"
    and run: "for_each (get_node_step nbi lm nts) js t = Inr t'"
  shows "I t' \<and> same_frame ns ls t'"
proof (rule for_each_inv [OF run, where I = "\<lambda>u. I u \<and> same_frame ns ls u"])
  show "I t \<and> same_frame ns ls t" using t by simp
next
  fix x and u u' :: gstate
  assume x: "x \<in> set js" and u: "I u \<and> same_frame ns ls u"
    and st: "get_node_step nbi lm nts x u = Inr u'"
  show "I u' \<and> same_frame ns ls u'"
    using get_node_step_keeps [OF sk _ _ _ _ st] js x u by blast
qed

lemma get_pass_keeps:
  assumes sk: "steps_keep nbi lm nts ns ls (\<lambda>j k. True) I"
    and I0: "I \<lparr>st_nodes = ns, st_links = ls, rewired = [], skipped_gets = []\<rparr>"
    and run: "get_pass nbi lm nts \<lparr>st_nodes = ns, st_links = ls, rewired = [], skipped_gets = []\<rparr> = Inr s"
  shows "I s \<and> same_frame ns ls s"
proof (rule nodes_loop_keeps [OF sk _ I0 _ run [unfolded get_pass_def]])
  show "\<forall>j\<in>set [0..<length (st_nodes \<lparr>st_nodes = ns, st_links = ls, rewired = [], skipped_gets = []\<rparr>)].
       j < length ns \<and> (\<forall>k<nports ns j. True)" by simp
  show "same_frame ns ls \<lparr>st_nodes = ns, st_links = ls, rewired = [], skipped_gets = []\<rparr>"
    by (simp add: same_frame_def)
qed


subsection \<open>The effect of one rewrite\<close>

lemma index_nodes_other:
  "index_nodes i ns m = Inr m' \<Longrightarrow> Some x \<notin> set (map node_id ns) \<Longrightarrow> m' x = m x"
  by (induction ns arbitrary: i m) (auto split: option.splits)

lemma index_nodes_distinct:
  assumes "index_nodes i ns m = Inr m'" and "distinct (map node_id ns)"
    and "j < length ns" and "node_id (ns ! j) = Some x"
  shows "m' x = Some (i + j)"
  using assms
proof (induction ns arbitrary: i m j)
  case Nil
  then show ?case by simp
next
  case (Cons n ns)
  from Cons.prems(1) obtain k where k: "node_id n = Some k"
    and rest: "index_nodes (Suc i) ns (m(k \<mapsto> i)) = Inr m'"
    by (auto split: option.splits)
  show ?case
  proof (cases j)
    case 0
    then have "x = k" using Cons.prems(4) k by simp
    moreover have "Some k \<notin> set (map node_id ns)" using Cons.prems(2) k by auto
    ultimately show ?thesis using index_nodes_other [OF rest] 0 by simp
  next
    case (Suc j')
    then have "m' x = Some (Suc i + j')"
      using Cons.IH [OF rest, of j'] Cons.prems(2,3,4) by simp
    then show ?thesis using Suc by simp
  qed
qed

lemma index_nodes_exact:
  assumes "index_nodes 0 ns Map.empty = Inr nbi" and "distinct (map node_id ns)"
  shows "ids_exact nbi ns"
proof -
  have "ids_present ns" using assms(1) index_nodes_returns by blast
  then have "\<exists>nid. node_id (ns ! j) = Some nid" if "j < length ns" for j
    using that by (auto simp: ids_present_def)
  then show ?thesis
    unfolding ids_exact_def using index_nodes_distinct [OF assms] by fastforce
qed

lemma link_map_ok_inj:
  "link_map_ok lm ls \<Longrightarrow> lm x = Some li \<Longrightarrow> lm y = Some li \<Longrightarrow> x = y"
  unfolding link_map_ok_def by metis

lemma link_update_same_frame:
  assumes "link_frame l' = link_frame l"
  shows "l'\<lparr>from_node := a, from_slot := b, ltype := c\<rparr> = l\<lparr>from_node := a, from_slot := b, ltype := c\<rparr>"
  using assms by (cases l; cases l') (simp add: link_frame_def)

lemma link_step_port:
  assumes "link_step nbi lm j name (a, b, c) k lid t = Inr t'" and "lm lid = Some li"
    and "same_frame ns ls t" and "link_map_ok lm ls" and "j < length ns"
    and "j' < length ns" and "k' < nports ns j'"
  obtains nid where "node_id (ns ! j) = Some nid"
    and "links_at (st_nodes t') j' k' =
     (let l0 = links_at (st_nodes t) j' k';
          l1 = (if nbi a = Some j' \<and> b = int k' \<and> lid \<notin> set l0 then l0 @ [lid] else l0)
      in if nbi nid = Some j' \<and> k = k' then remove1 lid l1 else l1)"
proof -
  from link_step_effect [OF assms(1-5)] obtain nid where nid: "node_id (ns ! j) = Some nid"
    by metis
  show ?thesis
    by (rule that [OF nid links_at_link_step [OF assms(1-5) nid assms(6,7)]])
qed

lemma link_step_links:
  assumes "link_step nbi lm j name (a, b, c) k lid t = Inr t'" and "lm lid = Some li"
    and "same_frame ns ls t" and "link_map_ok lm ls" and "j < length ns"
  shows "st_links t' = (st_links t)[li := (st_links t ! li)\<lparr>from_node := a, from_slot := b, ltype := c\<rparr>]"
  using link_step_effect [OF assms] by metis

text \<open>Whether a port holds a link id other than the one rewritten does not change; the
  id rewritten can only appear on the port it is registered on.\<close>

lemma link_step_member_other:
  assumes step: "link_step nbi lm j name src k lid t = Inr t'"
    and fr: "same_frame ns ls t" and lmok: "link_map_ok lm ls" and j: "j < length ns"
    and j': "j' < length ns" "k' < nports ns j'" and x: "x \<noteq> lid"
  shows "(x \<in> set (links_at (st_nodes t') j' k')) = (x \<in> set (links_at (st_nodes t) j' k'))"
proof (cases "lm lid")
  case None
  then show ?thesis using step by (simp add: link_step_absent)
next
  case (Some li)
  obtain a b c where abc: "src = (a, b, c)" by (cases src)
  from link_step_port [OF step [unfolded abc] Some fr lmok j j']
  obtain nid where eff: "links_at (st_nodes t') j' k' =
     (let l0 = links_at (st_nodes t) j' k';
          l1 = (if nbi a = Some j' \<and> b = int k' \<and> lid \<notin> set l0 then l0 @ [lid] else l0)
      in if nbi nid = Some j' \<and> k = k' then remove1 lid l1 else l1)"
    by metis
  show ?thesis unfolding eff Let_def using x by (auto simp: in_set_remove1)
qed

lemma link_step_member_same:
  assumes step: "link_step nbi lm j name (a, b, c) k lid t = Inr t'"
    and fr: "same_frame ns ls t" and lmok: "link_map_ok lm ls" and j: "j < length ns"
    and j': "j' < length ns" "k' < nports ns j'"
    and mem: "lid \<in> set (links_at (st_nodes t') j' k')"
  shows "lid \<in> set (links_at (st_nodes t) j' k') \<or> (nbi a = Some j' \<and> b = int k')"
proof (cases "lm lid")
  case None
  then show ?thesis using step mem by (simp add: link_step_absent)
next
  case (Some li)
  from link_step_port [OF step Some fr lmok j j']
  obtain nid where eff: "links_at (st_nodes t') j' k' =
     (let l0 = links_at (st_nodes t) j' k';
          l1 = (if nbi a = Some j' \<and> b = int k' \<and> lid \<notin> set l0 then l0 @ [lid] else l0)
      in if nbi nid = Some j' \<and> k = k' then remove1 lid l1 else l1)"
    by metis
  from mem show ?thesis
    unfolding eff Let_def by (auto split: if_splits dest: notin_set_remove1)
qed

subsection \<open>Links that end with the triple of their reader\<close>

lemma settle_step:
  assumes lmok: "link_map_ok lm ls" and li0: "lm lid0 = Some li0"
    and agree: "readers_agree nts ns lid0 src0"
    and j: "j < length ns" "node_type (ns ! j) = VStr ''GetNode''"
      "nts (bound_name (ns ! j)) = Some src" "k < nports ns j"
    and lid: "lid = lid0 \<Longrightarrow> lid0 \<in> set (links_at ns j k)"
    and fr: "same_frame ns ls t"
    and step: "link_step nbi lm j (bound_name (ns ! j)) src k lid t = Inr t'"
  shows "link_settled ls li0 src0 t \<Longrightarrow> link_settled ls li0 src0 t'"
    and "lid = lid0 \<Longrightarrow> link_settled ls li0 src0 t'"
proof -
  obtain a b c where abc: "src = (a, b, c)" by (cases src)
  have li0_len: "li0 < length ls" using lmok li0 by (simp add: link_map_ok_def)
  have len: "length (st_links t) = length ls" using same_frame_length [OF fr] by simp
  have est: "link_settled ls li0 src0 t'" if eq: "lid = lid0"
  proof -
    have src0: "src = src0" using agree j lid [OF eq] unfolding readers_agree_def by auto
    have "lm lid = Some li0" using li0 eq by simp
    from link_step_links [OF step [unfolded abc] this fr lmok j(1)]
    have "st_links t' ! li0 = (st_links t ! li0)\<lparr>from_node := a, from_slot := b, ltype := c\<rparr>"
      using li0_len len by simp
    moreover have "link_frame (st_links t ! li0) = link_frame (ls ! li0)"
      using same_frame_links [OF fr li0_len] by (simp add: link_frame_def)
    ultimately show ?thesis
      using link_update_same_frame [where l' = "st_links t ! li0" and l = "ls ! li0"
          and a = a and b = b and c = c] src0 abc
      by (auto simp: link_settled_def)
  qed
  show "lid = lid0 \<Longrightarrow> link_settled ls li0 src0 t'" by (rule est)
  show "link_settled ls li0 src0 t'" if st: "link_settled ls li0 src0 t"
  proof (cases "lid = lid0")
    case True
    then show ?thesis by (rule est)
  next
    case False
    show ?thesis
    proof (cases "lm lid")
      case None
      then show ?thesis using step st by (simp add: link_step_absent)
    next
      case (Some li)
      have "li \<noteq> li0" using link_map_ok_inj [OF lmok Some, of lid0] li0 False by blast
      then have "st_links t' ! li0 = st_links t ! li0"
        using link_step_links [OF step [unfolded abc] Some fr lmok j(1)] by simp
      then show ?thesis using st by (simp add: link_settled_def)
    qed
  qed
qed

lemma holders_step:
  assumes lmok: "link_map_ok lm ls"
    and agree: "readers_agree nts ns lid0 (a0, b0, c0)"
    and off: "beside_get_ports nbi ns a0 b0"
    and j: "j < length ns" "node_type (ns ! j) = VStr ''GetNode''"
      "nts (bound_name (ns ! j)) = Some src" "k < nports ns j"
    and lid: "lid = lid0 \<Longrightarrow> lid0 \<in> set (links_at ns j k)"
    and t: "holders_input ns lid0 t" and fr: "same_frame ns ls t"
    and step: "link_step nbi lm j (bound_name (ns ! j)) src k lid t = Inr t'"
  shows "holders_input ns lid0 t'"
  unfolding holders_input_def
proof (intro allI impI)
  fix j' k'
  assume j': "j' < length ns" "node_type (ns ! j') = VStr ''GetNode''" "k' < nports ns j'"
    and mem: "lid0 \<in> set (links_at (st_nodes t') j' k')"
  have old: "lid0 \<in> set (links_at (st_nodes t) j' k') \<Longrightarrow> lid0 \<in> set (links_at ns j' k')"
    using t j' unfolding holders_input_def by blast
  show "lid0 \<in> set (links_at ns j' k')"
  proof (cases "lid = lid0")
    case False
    then show ?thesis
      using link_step_member_other [OF step fr lmok j(1) j'(1,3), of lid0] mem old by simp
  next
    case True
    have src: "src = (a0, b0, c0)"
      using agree j lid [OF True] unfolding readers_agree_def by auto
    from link_step_member_same [OF step [unfolded src True] fr lmok j(1) j'(1,3) mem]
    show ?thesis
    proof
      assume "lid0 \<in> set (links_at (st_nodes t) j' k')"
      then show ?thesis by (rule old)
    next
      assume "nbi a0 = Some j' \<and> b0 = int k'"
      then have False using off j' unfolding beside_get_ports_def by auto
      then show ?thesis ..
    qed
  qed
qed

lemma steps_keep_pending:
  assumes lmok: "link_map_ok lm ls" and li0: "lm lid0 = Some li0"
    and agree: "readers_agree nts ns lid0 (a0, b0, c0)"
    and off: "beside_get_ports nbi ns a0 b0"
    and j0: "j0 < length ns" "k0 < nports ns j0"
  shows "steps_keep nbi lm nts ns ls (\<lambda>j k. True)
           (\<lambda>t. holders_input ns lid0 t \<and>
                (link_settled ls li0 (a0, b0, c0) t \<or> lid0 \<in> set (links_at (st_nodes t) j0 k0)))"
    (is "steps_keep _ _ _ _ _ _ ?I")
  unfolding steps_keep_def
proof (rule conjI; intro allI impI)
  fix t x assume "?I t"
  then show "?I (t\<lparr>skipped_gets := x\<rparr>)"
    by (simp add: holders_input_def link_settled_def)
next
  fix j k src lid and tp t t' :: gstate
  assume j: "j < length ns" "node_type (ns ! j) = VStr ''GetNode''"
      "nts (bound_name (ns ! j)) = Some src" "k < nports ns j"
    and tp: "?I tp" "lid \<in> set (links_at (st_nodes tp) j k)"
    and t: "?I t" and fr: "same_frame ns ls t"
    and step: "link_step nbi lm j (bound_name (ns ! j)) src k lid t = Inr t'"
  have lid: "lid0 \<in> set (links_at ns j k)" if "lid = lid0"
    using tp j that unfolding holders_input_def by blast
  have hold: "holders_input ns lid0 t'"
    by (rule holders_step [OF lmok agree off j lid _ fr step]) (use t in simp_all)
  note ss = settle_step [OF lmok li0 agree j lid fr step]
  have "link_settled ls li0 (a0, b0, c0) t' \<or> lid0 \<in> set (links_at (st_nodes t') j0 k0)"
  proof (cases "lid = lid0")
    case True
    then show ?thesis using ss(2) by simp
  next
    case False
    then have "(lid0 \<in> set (links_at (st_nodes t') j0 k0)) = (lid0 \<in> set (links_at (st_nodes t) j0 k0))"
      using link_step_member_other [OF step fr lmok j(1) j0, of lid0] by simp
    then show ?thesis using t ss(1) by blast
  qed
  then show "?I t'" using hold by simp
qed

lemma steps_keep_settled:
  assumes lmok: "link_map_ok lm ls" and li0: "lm lid0 = Some li0"
    and agree: "readers_agree nts ns lid0 (a0, b0, c0)"
    and off: "beside_get_ports nbi ns a0 b0"
  shows "steps_keep nbi lm nts ns ls (\<lambda>j k. True)
           (\<lambda>t. holders_input ns lid0 t \<and> link_settled ls li0 (a0, b0, c0) t)"
    (is "steps_keep _ _ _ _ _ _ ?I")
  unfolding steps_keep_def
proof (rule conjI; intro allI impI)
  fix t x assume "?I t"
  then show "?I (t\<lparr>skipped_gets := x\<rparr>)"
    by (simp add: holders_input_def link_settled_def)
next
  fix j k src lid and tp t t' :: gstate
  assume j: "j < length ns" "node_type (ns ! j) = VStr ''GetNode''"
      "nts (bound_name (ns ! j)) = Some src" "k < nports ns j"
    and tp: "?I tp" "lid \<in> set (links_at (st_nodes tp) j k)"
    and t: "?I t" and fr: "same_frame ns ls t"
    and step: "link_step nbi lm j (bound_name (ns ! j)) src k lid t = Inr t'"
  have lid: "lid0 \<in> set (links_at ns j k)" if "lid = lid0"
    using tp j that unfolding holders_input_def by blast
  have hold: "holders_input ns lid0 t'"
    by (rule holders_step [OF lmok agree off j lid _ fr step]) (use t in simp_all)
  show "?I t'" using hold settle_step(1) [OF lmok li0 agree j lid fr step] t by simp
qed

lemma port_step_settles:
  assumes lmok: "link_map_ok lm ls" and li0: "lm lid0 = Some li0"
    and agree: "readers_agree nts ns lid0 (a0, b0, c0)"
    and off: "beside_get_ports nbi ns a0 b0"
    and j0: "j0 < length ns" "node_type (ns ! j0) = VStr ''GetNode''"
      "nts (bound_name (ns ! j0)) = Some (a0, b0, c0)" "k0 < nports ns j0"
    and lid0: "lid0 \<in> set (links_at ns j0 k0)"
    and u: "holders_input ns lid0 u"
      "link_settled ls li0 (a0, b0, c0) u \<or> lid0 \<in> set (links_at (st_nodes u) j0 k0)"
      "same_frame ns ls u"
    and run: "port_step nbi lm j0 (bound_name (ns ! j0)) (a0, b0, c0) k0 u = Inr u'"
  shows "link_settled ls li0 (a0, b0, c0) u'"
proof (cases "link_settled ls li0 (a0, b0, c0) u")
  case True
  have "(holders_input ns lid0 u' \<and> link_settled ls li0 (a0, b0, c0) u') \<and> same_frame ns ls u'"
    by (rule port_step_keeps [OF steps_keep_settled [OF lmok li0 agree off] j0(1-4) _ _ u(3) run])
      (use True u(1) in simp_all)
  then show ?thesis by simp
next
  case False
  then have pend: "lid0 \<in> set (links_at (st_nodes u) j0 k0)" using u(2) by simp
  let ?xs = "links_at (st_nodes u) j0 k0"
  have run': "for_each (link_step nbi lm j0 (bound_name (ns ! j0)) (a0, b0, c0) k0) ?xs u = Inr u'"
    using run by (simp add: port_step_def links_at_def)
  show ?thesis
  proof (rule for_each_establish [OF run' pend, where I = "same_frame ns ls"])
    show "same_frame ns ls u" by (rule u(3))
  next
    fix x and t t' :: gstate
    assume "x \<in> set ?xs" "same_frame ns ls t"
      "link_step nbi lm j0 (bound_name (ns ! j0)) (a0, b0, c0) k0 x t = Inr t'"
    then show "same_frame ns ls t'" using link_step_same_frame by blast
  next
    fix t t' :: gstate
    assume fr: "same_frame ns ls t"
      and st: "link_step nbi lm j0 (bound_name (ns ! j0)) (a0, b0, c0) k0 lid0 t = Inr t'"
    show "link_settled ls li0 (a0, b0, c0) t'"
      by (rule settle_step(2) [OF lmok li0 agree j0(1-4) _ fr st]) (use lid0 in simp_all)
  next
    fix x and t t' :: gstate
    assume x: "x \<in> set ?xs" and fr: "same_frame ns ls t" and d: "link_settled ls li0 (a0, b0, c0) t"
      and st: "link_step nbi lm j0 (bound_name (ns ! j0)) (a0, b0, c0) k0 x t = Inr t'"
    show "link_settled ls li0 (a0, b0, c0) t'"
      by (rule settle_step(1) [OF lmok li0 agree j0(1-4) _ fr st d]) (use lid0 in simp)
  qed
qed

lemma get_pass_settles:
  assumes lmok: "link_map_ok lm ls" and li0: "lm lid0 = Some li0"
    and agree: "readers_agree nts ns lid0 (a0, b0, c0)"
    and off: "beside_get_ports nbi ns a0 b0"
    and j0: "j0 < length ns" "node_type (ns ! j0) = VStr ''GetNode''"
      "nts (bound_name (ns ! j0)) = Some (a0, b0, c0)" "k0 < nports ns j0"
    and lid0: "lid0 \<in> set (links_at ns j0 k0)"
    and run: "get_pass nbi lm nts \<lparr>st_nodes = ns, st_links = ls, rewired = [], skipped_gets = []\<rparr> = Inr s"
  shows "link_settled ls li0 (a0, b0, c0) s \<and> holders_input ns lid0 s"
proof -
  let ?s0 = "\<lparr>st_nodes = ns, st_links = ls, rewired = [], skipped_gets = []\<rparr>"
  let ?Ia = "\<lambda>t. holders_input ns lid0 t \<and>
                (link_settled ls li0 (a0, b0, c0) t \<or> lid0 \<in> set (links_at (st_nodes t) j0 k0))"
  let ?Ib = "\<lambda>t. holders_input ns lid0 t \<and> link_settled ls li0 (a0, b0, c0) t"
  let ?I = "\<lambda>t. ?Ia t \<and> same_frame ns ls t"
  note ska = steps_keep_pending [OF lmok li0 agree off j0(1,4)]
  note skb = steps_keep_settled [OF lmok li0 agree off]
  have run': "for_each (get_node_step nbi lm nts) [0..<length ns] ?s0 = Inr s"
    using run by (simp add: get_pass_def)
  have j0in: "j0 \<in> set [0..<length ns]" using j0(1) by simp
  have fin: "?I s"
  proof (rule for_each_inv [OF run', where I = ?I])
    show "?I ?s0" using lid0 by (simp add: holders_input_def same_frame_def)
  next
    fix x and t t' :: gstate
    assume x: "x \<in> set [0..<length ns]" and t: "?I t"
      and st: "get_node_step nbi lm nts x t = Inr t'"
    show "?I t'"
      by (rule get_node_step_keeps [OF ska _ _ _ _ st]) (use x t in simp_all)
  qed
  have "link_settled ls li0 (a0, b0, c0) s"
  proof (rule for_each_establish [OF run' j0in, where I = ?I])
    show "?I ?s0" using lid0 by (simp add: holders_input_def same_frame_def)
  next
    fix x and t t' :: gstate
    assume x: "x \<in> set [0..<length ns]" and t: "?I t"
      and st: "get_node_step nbi lm nts x t = Inr t'"
    show "?I t'"
      by (rule get_node_step_keeps [OF ska _ _ _ _ st]) (use x t in simp_all)
  next
    fix x and t t' :: gstate
    assume x: "x \<in> set [0..<length ns]" and t: "?I t" and d: "link_settled ls li0 (a0, b0, c0) t"
      and st: "get_node_step nbi lm nts x t = Inr t'"
    have "?Ib t' \<and> same_frame ns ls t'"
      by (rule get_node_step_keeps [OF skb _ _ _ _ st]) (use x t d in simp_all)
    then show "link_settled ls li0 (a0, b0, c0) t'" by simp
  next
    fix t t' :: gstate
    assume t: "?I t" and st: "get_node_step nbi lm nts j0 t = Inr t'"
    from t have fr: "same_frame ns ls t" by simp
    from fr j0(1) st show "link_settled ls li0 (a0, b0, c0) t'"
    proof (cases rule: get_node_step_cases)
      case other
      then show ?thesis using j0(2) by simp
    next
      case (skipped nid)
      then show ?thesis using j0(3) by simp
    next
      case (resolved src)
      then have ports: "for_each (port_step nbi lm j0 (bound_name (ns ! j0)) (a0, b0, c0))
          [0..<nports ns j0] t = Inr t'"
        using j0(3) by simp
      have k0in: "k0 \<in> set [0..<nports ns j0]" using j0(4) by simp
      show ?thesis
      proof (rule for_each_establish [OF ports k0in, where I = ?I])
        show "?I t" by (rule t)
      next
        fix x and u u' :: gstate
        assume x: "x \<in> set [0..<nports ns j0]" and u: "?I u"
          and pst: "port_step nbi lm j0 (bound_name (ns ! j0)) (a0, b0, c0) x u = Inr u'"
        show "?I u'"
          by (rule port_step_keeps [OF ska j0(1-3) _ _ _ _ pst]) (use x u in simp_all)
      next
        fix x and u u' :: gstate
        assume x: "x \<in> set [0..<nports ns j0]" and u: "?I u"
          and d: "link_settled ls li0 (a0, b0, c0) u"
          and pst: "port_step nbi lm j0 (bound_name (ns ! j0)) (a0, b0, c0) x u = Inr u'"
        have "?Ib u' \<and> same_frame ns ls u'"
          by (rule port_step_keeps [OF skb j0(1-3) _ _ _ _ pst]) (use x u d in simp_all)
        then show "link_settled ls li0 (a0, b0, c0) u'" by simp
      next
        fix u u' :: gstate
        assume u: "?I u"
          and pst: "port_step nbi lm j0 (bound_name (ns ! j0)) (a0, b0, c0) k0 u = Inr u'"
        show "link_settled ls li0 (a0, b0, c0) u'"
          by (rule port_step_settles [OF lmok li0 agree off j0 lid0 _ _ _ pst]) (use u in simp_all)
      qed
    qed
  qed
  then show ?thesis using fin by simp
qed


subsection \<open>The read-port pass on a graph without chaining and with unique ids\<close>

lemma link_step_get_port_exact:
  assumes step: "link_step nbi lm j (bound_name (ns ! j)) src k lid t = Inr t'"
    and fr: "same_frame ns ls t" and lmok: "link_map_ok lm ls"
    and j: "j < length ns" and src: "nts (bound_name (ns ! j)) = Some src"
    and nc: "no_chaining nbi nts ns" and ex: "ids_exact nbi ns"
    and j': "j' < length ns" "node_type (ns ! j') = VStr ''GetNode''" "k' < nports ns j'"
  shows "links_at (st_nodes t') j' k' =
     (if j' = j \<and> k' = k \<and> lm lid \<noteq> None then remove1 lid (links_at (st_nodes t) j k)
      else links_at (st_nodes t) j' k')"
proof (cases "lm lid")
  case None
  then show ?thesis using step by (simp add: link_step_absent)
next
  case (Some li)
  obtain a b c where abc: "src = (a, b, c)" by (cases src)
  from link_step_port [OF step [unfolded abc] Some fr lmok j j'(1,3)]
  obtain nid where nid: "node_id (ns ! j) = Some nid"
    and eff: "links_at (st_nodes t') j' k' =
            (let l0 = links_at (st_nodes t) j' k';
                 l1 = (if nbi a = Some j' \<and> b = int k' \<and> lid \<notin> set l0 then l0 @ [lid] else l0)
             in if nbi nid = Some j' \<and> k = k' then remove1 lid l1 else l1)"
    by metis
  have "nbi nid = Some j" using nid ex j unfolding ids_exact_def by fastforce
  moreover have "nbi a \<noteq> Some j'"
    using nc src abc j'(2) unfolding no_chaining_def by blast
  ultimately show ?thesis using eff Some by (auto simp: Let_def)
qed

lemma link_step_rewired:
  assumes "link_step nbi lm j name src k lid t = Inr t'" and "same_frame ns ls t"
    and "link_map_ok lm ls" and "j < length ns" and "node_id (ns ! j) = Some nid"
  shows "rewired t' = rewired t @ port_trace lm name nid (fst src) [lid]"
proof (cases "lm lid")
  case None
  then show ?thesis using assms(1) by (simp add: link_step_absent port_trace_def)
next
  case (Some li)
  obtain a b c where abc: "src = (a, b, c)" by (cases src)
  from link_step_effect [OF assms(1) [unfolded abc] Some assms(2-4)] assms(5)
  have "rewired t' = rewired t @ [(name, lid, nid, a)]" by auto
  then show ?thesis using Some abc by (simp add: port_trace_def)
qed

lemma port_trace_append:
  "port_trace lm name nid a (xs @ ys) = port_trace lm name nid a xs @ port_trace lm name nid a ys"
  by (simp add: port_trace_def)

lemma links_loop_exact:
  assumes nc: "no_chaining nbi nts ns" and ex: "ids_exact nbi ns" and lmok: "link_map_ok lm ls"
    and j: "j < length ns" "node_type (ns ! j) = VStr ''GetNode''"
      "nts (bound_name (ns ! j)) = Some src" "k < nports ns j" "node_id (ns ! j) = Some nid"
    and run: "for_each (link_step nbi lm j (bound_name (ns ! j)) src k) zs t = Inr t'"
    and fr: "same_frame ns ls t"
    and pre: "links_at (st_nodes t) j k = pre @ zs" "\<forall>x \<in> set pre. lm x = None"
  shows "same_frame ns ls t' \<and>
         links_at (st_nodes t') j k = pre @ filter (\<lambda>x. lm x = None) zs \<and>
         (\<forall>j' k'. j' < length ns \<longrightarrow> node_type (ns ! j') = VStr ''GetNode'' \<longrightarrow> k' < nports ns j' \<longrightarrow>
            (j', k') \<noteq> (j, k) \<longrightarrow> links_at (st_nodes t') j' k' = links_at (st_nodes t) j' k') \<and>
         rewired t' = rewired t @ port_trace lm (bound_name (ns ! j)) nid (fst src) zs \<and>
         skipped_gets t' = skipped_gets t"
  using run fr pre
proof (induction zs arbitrary: t pre)
  case Nil
  then show ?case by (simp add: port_trace_def)
next
  case (Cons z zs)
  from Cons.prems(1) obtain u where
    st: "link_step nbi lm j (bound_name (ns ! j)) src k z t = Inr u"
    and rest: "for_each (link_step nbi lm j (bound_name (ns ! j)) src k) zs u = Inr t'"
    by (auto split: sum.splits)
  have fru: "same_frame ns ls u" by (rule link_step_same_frame [OF st Cons.prems(2)])
  have rw: "rewired u = rewired t @ port_trace lm (bound_name (ns ! j)) nid (fst src) [z]"
    by (rule link_step_rewired [OF st Cons.prems(2) lmok j(1,5)])
  have sk: "skipped_gets u = skipped_gets t" by (rule link_step_frame(3) [OF st])
  note ports = link_step_get_port_exact [OF st Cons.prems(2) lmok j(1,3) nc ex]
  have others: "links_at (st_nodes u) j' k' = links_at (st_nodes t) j' k'"
    if "j' < length ns" "node_type (ns ! j') = VStr ''GetNode''" "k' < nports ns j'" "(j', k') \<noteq> (j, k)"
    for j' k'
    using ports [OF that(1-3)] that(4) by auto
  show ?case
  proof (cases "lm z")
    case None
    then have here: "links_at (st_nodes u) j k = (pre @ [z]) @ zs"
      using ports [OF j(1,2,4)] Cons.prems(3) by simp
    have pre': "\<forall>x \<in> set (pre @ [z]). lm x = None" using Cons.prems(4) None by simp
    from Cons.IH [OF rest fru here pre'] show ?thesis
      using others rw sk None by (simp add: port_trace_def)
  next
    case (Some li)
    then have "z \<notin> set pre" using Cons.prems(4) by auto
    then have here: "links_at (st_nodes u) j k = pre @ zs"
      using ports [OF j(1,2,4)] Cons.prems(3) Some by (simp add: remove1_append)
    from Cons.IH [OF rest fru here Cons.prems(4)] show ?thesis
      using others rw sk Some by (simp add: port_trace_def)
  qed
qed

lemma port_step_exact:
  assumes nc: "no_chaining nbi nts ns" and ex: "ids_exact nbi ns" and lmok: "link_map_ok lm ls"
    and j: "j < length ns" "node_type (ns ! j) = VStr ''GetNode''"
      "nts (bound_name (ns ! j)) = Some src" "k < nports ns j" "node_id (ns ! j) = Some nid"
    and run: "port_step nbi lm j (bound_name (ns ! j)) src k t = Inr t'"
    and fr: "same_frame ns ls t"
  shows "same_frame ns ls t' \<and>
         links_at (st_nodes t') j k = filter (\<lambda>x. lm x = None) (links_at (st_nodes t) j k) \<and>
         (\<forall>j' k'. j' < length ns \<longrightarrow> node_type (ns ! j') = VStr ''GetNode'' \<longrightarrow> k' < nports ns j' \<longrightarrow>
            (j', k') \<noteq> (j, k) \<longrightarrow> links_at (st_nodes t') j' k' = links_at (st_nodes t) j' k') \<and>
         rewired t' = rewired t @
            port_trace lm (bound_name (ns ! j)) nid (fst src) (links_at (st_nodes t) j k) \<and>
         skipped_gets t' = skipped_gets t"
proof -
  have run': "for_each (link_step nbi lm j (bound_name (ns ! j)) src k)
      (links_at (st_nodes t) j k) t = Inr t'"
    using run by (simp add: port_step_def links_at_def)
  from links_loop_exact [OF nc ex lmok j run' fr, of "[]"] show ?thesis by simp
qed

lemma ports_loop_exact:
  assumes nc: "no_chaining nbi nts ns" and ex: "ids_exact nbi ns" and lmok: "link_map_ok lm ls"
    and j: "j < length ns" "node_type (ns ! j) = VStr ''GetNode''"
      "nts (bound_name (ns ! j)) = Some src" "node_id (ns ! j) = Some nid"
    and run: "for_each (port_step nbi lm j (bound_name (ns ! j)) src) [0..<nports ns j] t = Inr t'"
    and fr: "same_frame ns ls t"
  shows "same_frame ns ls t' \<and>
         (\<forall>k < nports ns j. links_at (st_nodes t') j k =
              filter (\<lambda>x. lm x = None) (links_at (st_nodes t) j k)) \<and>
         (\<forall>j' k'. j' < length ns \<longrightarrow> node_type (ns ! j') = VStr ''GetNode'' \<longrightarrow> k' < nports ns j' \<longrightarrow>
            j' \<noteq> j \<longrightarrow> links_at (st_nodes t') j' k' = links_at (st_nodes t) j' k') \<and>
         rewired t' = rewired t @
            concat (map (\<lambda>k. port_trace lm (bound_name (ns ! j)) nid (fst src)
                               (links_at (st_nodes t) j k)) [0..<nports ns j]) \<and>
         skipped_gets t' = skipped_gets t"
proof -
  let ?P = "\<lambda>m u. same_frame ns ls u \<and>
         (\<forall>k < nports ns j. links_at (st_nodes u) j k =
              (if k < m then filter (\<lambda>x. lm x = None) (links_at (st_nodes t) j k)
               else links_at (st_nodes t) j k)) \<and>
         (\<forall>j' k'. j' < length ns \<longrightarrow> node_type (ns ! j') = VStr ''GetNode'' \<longrightarrow> k' < nports ns j' \<longrightarrow>
            j' \<noteq> j \<longrightarrow> links_at (st_nodes u) j' k' = links_at (st_nodes t) j' k') \<and>
         rewired u = rewired t @
            concat (map (\<lambda>k. port_trace lm (bound_name (ns ! j)) nid (fst src)
                               (links_at (st_nodes t) j k)) [0..<m]) \<and>
         skipped_gets u = skipped_gets t"
  have "?P (nports ns j) t'"
  proof (rule for_each_upt_induct [OF run, where P = ?P])
    show "?P 0 t" using fr by simp
  next
    fix m and u u' :: gstate
    assume m: "m < nports ns j" and P: "?P m u"
      and st: "port_step nbi lm j (bound_name (ns ! j)) src m u = Inr u'"
    from P have fru: "same_frame ns ls u" by simp
    note e = port_step_exact [OF nc ex lmok j(1-3) m j(4) st fru]
    have here: "links_at (st_nodes u) j m = links_at (st_nodes t) j m" using P m by simp
    have 1: "same_frame ns ls u'" using e by simp
    have 2: "links_at (st_nodes u') j k =
              (if k < Suc m then filter (\<lambda>x. lm x = None) (links_at (st_nodes t) j k)
               else links_at (st_nodes t) j k)" if "k < nports ns j" for k
    proof (cases "k = m")
      case True
      then show ?thesis using e here by simp
    next
      case False
      then have "links_at (st_nodes u') j k = links_at (st_nodes u) j k"
        using e j(1,2) that by simp
      then show ?thesis using P that False by (simp add: less_Suc_eq)
    qed
    have 3: "links_at (st_nodes u') j' k' = links_at (st_nodes t) j' k'"
      if "j' < length ns" "node_type (ns ! j') = VStr ''GetNode''" "k' < nports ns j'" "j' \<noteq> j"
      for j' k'
    proof -
      have "links_at (st_nodes u') j' k' = links_at (st_nodes u) j' k'"
        using e that by simp
      then show ?thesis using P that by simp
    qed
    have 4: "rewired u' = rewired t @
            concat (map (\<lambda>k. port_trace lm (bound_name (ns ! j)) nid (fst src)
                               (links_at (st_nodes t) j k)) [0..<Suc m])"
      using e P here by simp
    have 5: "skipped_gets u' = skipped_gets t" using e P by simp
    show "?P (Suc m) u'" using 1 2 3 4 5 by blast
  qed
  then show ?thesis by simp
qed

lemma node_trace_other:
  "node_type (ns ! j) \<noteq> VStr ''GetNode'' \<Longrightarrow> node_trace lm nts ns j = []"
  "nts (bound_name (ns ! j)) = None \<Longrightarrow> node_trace lm nts ns j = []"
  by (simp_all add: node_trace_def)

lemma node_trace_resolved:
  "node_type (ns ! j) = VStr ''GetNode'' \<Longrightarrow> nts (bound_name (ns ! j)) = Some src \<Longrightarrow>
   node_id (ns ! j) = Some nid \<Longrightarrow>
   node_trace lm nts ns j =
     concat (map (\<lambda>k. port_trace lm (bound_name (ns ! j)) nid (fst src) (links_at ns j k))
               [0..<nports ns j])"
  by (simp add: node_trace_def)

lemma get_pass_exact:
  assumes nc: "no_chaining nbi nts ns" and ex: "ids_exact nbi ns" and lmok: "link_map_ok lm ls"
    and run: "get_pass nbi lm nts \<lparr>st_nodes = ns, st_links = ls, rewired = [], skipped_gets = []\<rparr> = Inr s"
  shows "same_frame ns ls s \<and>
         (\<forall>j k. j < length ns \<longrightarrow> node_type (ns ! j) = VStr ''GetNode'' \<longrightarrow> k < nports ns j \<longrightarrow>
            links_at (st_nodes s) j k =
              (if nts (bound_name (ns ! j)) \<noteq> None
               then filter (\<lambda>x. lm x = None) (links_at ns j k) else links_at ns j k)) \<and>
         rewired s = expected_trace lm nts ns"
proof -
  let ?s0 = "\<lparr>st_nodes = ns, st_links = ls, rewired = [], skipped_gets = []\<rparr>"
  let ?P = "\<lambda>m t. same_frame ns ls t \<and>
         (\<forall>j k. j < length ns \<longrightarrow> node_type (ns ! j) = VStr ''GetNode'' \<longrightarrow> k < nports ns j \<longrightarrow>
            links_at (st_nodes t) j k =
              (if j < m \<and> nts (bound_name (ns ! j)) \<noteq> None
               then filter (\<lambda>x. lm x = None) (links_at ns j k) else links_at ns j k)) \<and>
         rewired t = concat (map (node_trace lm nts ns) [0..<m])"
  have run': "for_each (get_node_step nbi lm nts) [0..<length ns] ?s0 = Inr s"
    using run by (simp add: get_pass_def)
  have "?P (length ns) s"
  proof (rule for_each_upt_induct [OF run', where P = ?P])
    show "?P 0 ?s0" by (simp add: same_frame_def)
  next
    fix m and t t' :: gstate
    assume m: "m < length ns" and P: "?P m t" and st: "get_node_step nbi lm nts m t = Inr t'"
    from P have fr: "same_frame ns ls t" by simp
    from fr m st show "?P (Suc m) t'"
    proof (cases rule: get_node_step_cases)
      case other
      then show ?thesis using P by (auto simp: node_trace_other less_Suc_eq)
    next
      case (skipped nid)
      have "same_frame ns ls t'" using fr skipped(4) by (simp add: same_frame_skipped)
      moreover have "rewired t' = concat (map (node_trace lm nts ns) [0..<Suc m])"
        using P skipped by (simp add: node_trace_other)
      moreover have "links_at (st_nodes t') j k =
              (if j < Suc m \<and> nts (bound_name (ns ! j)) \<noteq> None
               then filter (\<lambda>x. lm x = None) (links_at ns j k) else links_at ns j k)"
        if "j < length ns" "node_type (ns ! j) = VStr ''GetNode''" "k < nports ns j" for j k
      proof -
        have "links_at (st_nodes t') j k = links_at (st_nodes t) j k" using skipped(4) by simp
        then show ?thesis using P that skipped(2) by (auto simp: less_Suc_eq)
      qed
      ultimately show ?thesis by blast
    next
      case (resolved src)
      obtain nid where nid: "node_id (ns ! m) = Some nid"
        using ex m unfolding ids_exact_def by blast
      note e = ports_loop_exact [OF nc ex lmok m resolved(1,2) nid resolved(3) fr]
      have here: "links_at (st_nodes t) m k = links_at ns m k" if "k < nports ns m" for k
        using P m resolved(1) that by simp
      have 1: "same_frame ns ls t'" using e by simp
      have mp: "map (\<lambda>k. port_trace lm (bound_name (ns ! m)) nid (fst src) (links_at (st_nodes t) m k))
               [0..<nports ns m] =
            map (\<lambda>k. port_trace lm (bound_name (ns ! m)) nid (fst src) (links_at ns m k))
               [0..<nports ns m]"
        using here by simp
      have "rewired t' = rewired t @
            concat (map (\<lambda>k. port_trace lm (bound_name (ns ! m)) nid (fst src)
                               (links_at (st_nodes t) m k)) [0..<nports ns m])"
        using e by simp
      then have "rewired t' = rewired t @ node_trace lm nts ns m"
        by (simp only: mp node_trace_resolved [where nts = nts and lm = lm, OF resolved(1,2) nid])
      then have 3: "rewired t' = concat (map (node_trace lm nts ns) [0..<Suc m])"
        using P by simp
      have 2: "links_at (st_nodes t') j k =
              (if j < Suc m \<and> nts (bound_name (ns ! j)) \<noteq> None
               then filter (\<lambda>x. lm x = None) (links_at ns j k) else links_at ns j k)"
        if "j < length ns" "node_type (ns ! j) = VStr ''GetNode''" "k < nports ns j" for j k
      proof (cases "j = m")
        case True
        then show ?thesis using e that here resolved(2) by simp
      next
        case False
        then have "links_at (st_nodes t') j k = links_at (st_nodes t) j k"
          using e that by simp
        then show ?thesis using P that False by (simp add: less_Suc_eq)
      qed
      show ?thesis using 1 2 3 by blast
    qed
  qed
  then show ?thesis by (simp add: expected_trace_def)
qed


lemma sources_plain_no_chaining:
  assumes "sources_plain nts ns" and "nodes_by_id_ok nbi ns"
  shows "no_chaining nbi nts ns"
  unfolding no_chaining_def
proof (intro allI impI)
  fix name a b c i
  assume n: "nts name = Some (a, b, c)" and i: "nbi a = Some i"
  then have "i < length ns" "node_id (ns ! i) = Some a"
    using assms(2) by (simp_all add: nodes_by_id_ok_def)
  then show "node_type (ns ! i) \<noteq> VStr ''GetNode''"
    using assms(1) n unfolding sources_plain_def by (meson nth_mem)
qed


subsection \<open>What the visit of one output port establishes\<close>

text \<open>A property \<open>Ib\<close> that the visit of port \<open>k0\<close> of the resolved GetNode at position \<open>j0\<close>
  establishes, and that every rewrite keeps, holds after the pass.\<close>

lemma get_pass_establish:
  assumes ska: "steps_keep nbi lm nts ns ls (\<lambda>j k. True) Ia"
    and skb: "steps_keep nbi lm nts ns ls (\<lambda>j k. True) Ib"
    and j0: "j0 < length ns" "node_type (ns ! j0) = VStr ''GetNode''"
      "nts (bound_name (ns ! j0)) = Some src0" "k0 < nports ns j0"
    and I0: "Ia \<lparr>st_nodes = ns, st_links = ls, rewired = [], skipped_gets = []\<rparr>"
    and est: "\<And>u u'. Ia u \<Longrightarrow> same_frame ns ls u \<Longrightarrow>
      port_step nbi lm j0 (bound_name (ns ! j0)) src0 k0 u = Inr u' \<Longrightarrow> Ib u'"
    and run: "get_pass nbi lm nts \<lparr>st_nodes = ns, st_links = ls, rewired = [], skipped_gets = []\<rparr> = Inr s"
  shows "Ib s"
proof -
  let ?s0 = "\<lparr>st_nodes = ns, st_links = ls, rewired = [], skipped_gets = []\<rparr>"
  let ?I = "\<lambda>t. Ia t \<and> same_frame ns ls t"
  have run': "for_each (get_node_step nbi lm nts) [0..<length ns] ?s0 = Inr s"
    using run by (simp add: get_pass_def)
  have j0in: "j0 \<in> set [0..<length ns]" using j0(1) by simp
  show ?thesis
  proof (rule for_each_establish [OF run' j0in, where I = ?I])
    show "?I ?s0" using I0 by (simp add: same_frame_def)
  next
    fix x and t t' :: gstate
    assume x: "x \<in> set [0..<length ns]" and t: "?I t"
      and st: "get_node_step nbi lm nts x t = Inr t'"
    show "?I t'"
      by (rule get_node_step_keeps [OF ska _ _ _ _ st]) (use x t in simp_all)
  next
    fix x and t t' :: gstate
    assume x: "x \<in> set [0..<length ns]" and t: "?I t" and d: "Ib t"
      and st: "get_node_step nbi lm nts x t = Inr t'"
    have "Ib t' \<and> same_frame ns ls t'"
      by (rule get_node_step_keeps [OF skb _ _ _ _ st]) (use x t d in simp_all)
    then show "Ib t'" by simp
  next
    fix t t' :: gstate
    assume t: "?I t" and st: "get_node_step nbi lm nts j0 t = Inr t'"
    from t have fr: "same_frame ns ls t" by simp
    from fr j0(1) st show "Ib t'"
    proof (cases rule: get_node_step_cases)
      case other
      then show ?thesis using j0(2) by simp
    next
      case (skipped nid)
      then show ?thesis using j0(3) by simp
    next
      case (resolved src)
      then have ports: "for_each (port_step nbi lm j0 (bound_name (ns ! j0)) src0)
          [0..<nports ns j0] t = Inr t'"
        using j0(3) by simp
      have k0in: "k0 \<in> set [0..<nports ns j0]" using j0(4) by simp
      show ?thesis
      proof (rule for_each_establish [OF ports k0in, where I = ?I])
        show "?I t" by (rule t)
      next
        fix x and u u' :: gstate
        assume x: "x \<in> set [0..<nports ns j0]" and u: "?I u"
          and pst: "port_step nbi lm j0 (bound_name (ns ! j0)) src0 x u = Inr u'"
        show "?I u'"
          by (rule port_step_keeps [OF ska j0(1-3) _ _ _ _ pst]) (use x u in simp_all)
      next
        fix x and u u' :: gstate
        assume x: "x \<in> set [0..<nports ns j0]" and u: "?I u" and d: "Ib u"
          and pst: "port_step nbi lm j0 (bound_name (ns ! j0)) src0 x u = Inr u'"
        have "Ib u' \<and> same_frame ns ls u'"
          by (rule port_step_keeps [OF skb j0(1-3) _ _ _ _ pst]) (use x u d in simp_all)
        then show "Ib u'" by simp
      next
        fix u u' :: gstate
        assume u: "?I u"
          and pst: "port_step nbi lm j0 (bound_name (ns ! j0)) src0 k0 u = Inr u'"
        show "Ib u'" by (rule est [OF _ _ pst]) (use u in simp_all)
      qed
    qed
  qed
qed

subsection \<open>Every attached link has its trace entry\<close>

lemma link_step_trace_grows:
  assumes "link_step nbi lm j name src k lid t = Inr t'"
  shows "set (rewired t) \<subseteq> set (rewired t')"
  using assms by (cases rule: link_step_cases) auto

lemma link_step_port_ids:
  assumes step: "link_step nbi lm j name (a, b, c) k lid t = Inr t'" and li: "lm lid = Some li"
    and fr: "same_frame ns ls t" and lmok: "link_map_ok lm ls" and ex: "ids_exact nbi ns"
    and j: "j < length ns" and j': "j' < length ns" "k' < nports ns j'"
  shows "links_at (st_nodes t') j' k' =
     (let l0 = links_at (st_nodes t) j' k';
          l1 = (if nbi a = Some j' \<and> b = int k' \<and> lid \<notin> set l0 then l0 @ [lid] else l0)
      in if j = j' \<and> k = k' then remove1 lid l1 else l1)"
proof -
  from link_step_port [OF step li fr lmok j j']
  obtain nid where nid: "node_id (ns ! j) = Some nid"
    and eff: "links_at (st_nodes t') j' k' =
     (let l0 = links_at (st_nodes t) j' k';
          l1 = (if nbi a = Some j' \<and> b = int k' \<and> lid \<notin> set l0 then l0 @ [lid] else l0)
      in if nbi nid = Some j' \<and> k = k' then remove1 lid l1 else l1)"
    by metis
  have "nbi nid = Some j" using nid ex j unfolding ids_exact_def by fastforce
  then have "(nbi nid = Some j') = (j = j')" by auto
  then show ?thesis using eff by simp
qed

lemma steps_keep_trace:
  "steps_keep nbi lm nts ns ls (\<lambda>j k. True) (\<lambda>t. e \<in> set (rewired t))"
  unfolding steps_keep_def
proof (rule conjI; intro allI impI)
  fix t :: gstate and x assume "e \<in> set (rewired t)"
  then show "e \<in> set (rewired (t\<lparr>skipped_gets := x\<rparr>))" by simp
next
  fix j k src lid and t t' :: gstate
  assume "e \<in> set (rewired t)"
    and "link_step nbi lm j (bound_name (ns ! j)) src k lid t = Inr t'"
  then show "e \<in> set (rewired t')" using link_step_trace_grows by blast
qed

lemma steps_keep_traced:
  assumes lmok: "link_map_ok lm ls" and li0: "lm lid0 = Some li0" and ex: "ids_exact nbi ns"
    and j0: "j0 < length ns" "nts (bound_name (ns ! j0)) = Some src0" "k0 < nports ns j0"
      "node_id (ns ! j0) = Some nid0"
  shows "steps_keep nbi lm nts ns ls (\<lambda>j k. True)
           (\<lambda>t. (bound_name (ns ! j0), lid0, nid0, fst src0) \<in> set (rewired t) \<or>
                lid0 \<in> set (links_at (st_nodes t) j0 k0))"
    (is "steps_keep _ _ _ _ _ _ ?I")
  unfolding steps_keep_def
proof (rule conjI; intro allI impI)
  fix t x assume "?I t"
  then show "?I (t\<lparr>skipped_gets := x\<rparr>)" by simp
next
  fix j k src lid and tp t t' :: gstate
  assume j: "j < length ns" "nts (bound_name (ns ! j)) = Some src" "k < nports ns j"
    and t: "?I t" and fr: "same_frame ns ls t"
    and step: "link_step nbi lm j (bound_name (ns ! j)) src k lid t = Inr t'"
  obtain a b c where abc: "src = (a, b, c)" by (cases src)
  from t show "?I t'"
  proof
    assume "(bound_name (ns ! j0), lid0, nid0, fst src0) \<in> set (rewired t)"
    then show ?thesis using link_step_trace_grows [OF step] by blast
  next
    assume pend: "lid0 \<in> set (links_at (st_nodes t) j0 k0)"
    show ?thesis
    proof (cases "lm lid")
      case None
      then show ?thesis using step pend by (simp add: link_step_absent)
    next
      case (Some li)
      show ?thesis
      proof (cases "j = j0 \<and> k = k0 \<and> lid = lid0")
        case True
        then have "src = src0" using j(2) j0(2) by simp
        then have "rewired t' = rewired t @ port_trace lm (bound_name (ns ! j0)) nid0 (fst src0) [lid0]"
          using link_step_rewired [OF step fr lmok j(1)] True j0(4) by simp
        then show ?thesis using li0 by (simp add: port_trace_def)
      next
        case False
        from link_step_port_ids [OF step [unfolded abc] Some fr lmok ex j(1) j0(1,3)]
        have "lid0 \<in> set (links_at (st_nodes t') j0 k0)"
          using pend False by (auto simp: Let_def in_set_remove1)
        then show ?thesis by simp
      qed
    qed
  qed
qed

lemma get_pass_traced:
  assumes lmok: "link_map_ok lm ls" and li0: "lm lid0 = Some li0" and ex: "ids_exact nbi ns"
    and j0: "j0 < length ns" "node_type (ns ! j0) = VStr ''GetNode''"
      "nts (bound_name (ns ! j0)) = Some src0" "k0 < nports ns j0" "node_id (ns ! j0) = Some nid0"
    and lid0: "lid0 \<in> set (links_at ns j0 k0)"
    and run: "get_pass nbi lm nts \<lparr>st_nodes = ns, st_links = ls, rewired = [], skipped_gets = []\<rparr> = Inr s"
  shows "(bound_name (ns ! j0), lid0, nid0, fst src0) \<in> set (rewired s)"
proof (rule get_pass_establish [OF steps_keep_traced [where lm = lm and nts = nts,
        OF lmok li0 ex j0(1,3,4,5)] steps_keep_trace j0(1-4) _ _ run])
  show "(bound_name (ns ! j0), lid0, nid0, fst src0) \<in> set (rewired
      \<lparr>st_nodes = ns, st_links = ls, rewired = [], skipped_gets = []\<rparr>) \<or>
    lid0 \<in> set (links_at (st_nodes \<lparr>st_nodes = ns, st_links = ls, rewired = [], skipped_gets = []\<rparr>) j0 k0)"
    using lid0 by simp
next
  fix u u' :: gstate
  let ?e = "(bound_name (ns ! j0), lid0, nid0, fst src0)"
  assume u: "?e \<in> set (rewired u) \<or> lid0 \<in> set (links_at (st_nodes u) j0 k0)"
    and fr: "same_frame ns ls u"
    and pst: "port_step nbi lm j0 (bound_name (ns ! j0)) src0 k0 u = Inr u'"
  let ?xs = "links_at (st_nodes u) j0 k0"
  have run': "for_each (link_step nbi lm j0 (bound_name (ns ! j0)) src0 k0) ?xs u = Inr u'"
    using pst by (simp add: port_step_def links_at_def)
  from u show "?e \<in> set (rewired u')"
  proof
    assume "?e \<in> set (rewired u)"
    then show ?thesis
      by (rule for_each_inv [OF run', where I = "\<lambda>t. ?e \<in> set (rewired t)"])
        (use link_step_trace_grows in blast)
  next
    assume pend: "lid0 \<in> set ?xs"
    show ?thesis
    proof (rule for_each_establish [OF run' pend, where I = "same_frame ns ls"])
      show "same_frame ns ls u" by (rule fr)
    next
      fix x and t t' :: gstate
      assume "same_frame ns ls t"
        "link_step nbi lm j0 (bound_name (ns ! j0)) src0 k0 x t = Inr t'"
      then show "same_frame ns ls t'" using link_step_same_frame by blast
    next
      fix t t' :: gstate
      assume frt: "same_frame ns ls t"
        and st: "link_step nbi lm j0 (bound_name (ns ! j0)) src0 k0 lid0 t = Inr t'"
      show "?e \<in> set (rewired t')"
        using link_step_rewired [OF st frt lmok j0(1,5)] li0 by (simp add: port_trace_def)
    next
      fix x and t t' :: gstate
      assume "?e \<in> set (rewired t)"
        and "link_step nbi lm j0 (bound_name (ns ! j0)) src0 k0 x t = Inr t'"
      then show "?e \<in> set (rewired t')" using link_step_trace_grows by blast
    qed
  qed
qed

subsection \<open>Every attached link leaves the port of its reader\<close>

lemma count_list_remove1:
  "count_list (remove1 x xs) y = (if x = y then count_list xs y - 1 else count_list xs y)"
  by (induction xs) auto

lemma links_loop_clears:
  assumes lmok: "link_map_ok lm ls" and li0: "lm lid0 = Some li0"
    and j0: "j0 < length ns" "k0 < nports ns j0" "node_id (ns ! j0) = Some nid0" "nbi nid0 = Some j0"
    and nadd: "\<not> (nbi a = Some j0 \<and> b = int k0)"
    and run: "for_each (link_step nbi lm j0 name (a, b, c) k0) zs t = Inr t'"
    and fr: "same_frame ns ls t"
  shows "count_list (links_at (st_nodes t') j0 k0) lid0 =
         count_list (links_at (st_nodes t) j0 k0) lid0 - count_list zs lid0"
  using run fr
proof (induction zs arbitrary: t)
  case Nil
  then show ?case by simp
next
  case (Cons z zs)
  from Cons.prems(1) obtain u where
    st: "link_step nbi lm j0 name (a, b, c) k0 z t = Inr u"
    and rest: "for_each (link_step nbi lm j0 name (a, b, c) k0) zs u = Inr t'"
    by (auto split: sum.splits)
  have fru: "same_frame ns ls u" by (rule link_step_same_frame [OF st Cons.prems(2)])
  have one: "count_list (links_at (st_nodes u) j0 k0) lid0 =
      count_list (links_at (st_nodes t) j0 k0) lid0 - (if z = lid0 then 1 else 0)"
  proof (cases "lm z")
    case None
    then have "z \<noteq> lid0" using li0 by auto
    then show ?thesis using st None by (simp add: link_step_absent)
  next
    case (Some li)
    from link_step_port [OF st Some Cons.prems(2) lmok j0(1) j0(1,2)]
    obtain nid where nid: "node_id (ns ! j0) = Some nid"
      and eff: "links_at (st_nodes u) j0 k0 =
       (let l0 = links_at (st_nodes t) j0 k0;
            l1 = (if nbi a = Some j0 \<and> b = int k0 \<and> z \<notin> set l0 then l0 @ [z] else l0)
        in if nbi nid = Some j0 \<and> k0 = k0 then remove1 z l1 else l1)"
      by metis
    have "nid = nid0" using nid j0(3) by simp
    then have "links_at (st_nodes u) j0 k0 = remove1 z (links_at (st_nodes t) j0 k0)"
      using eff nadd j0(4) by (auto simp: Let_def)
    then show ?thesis by (simp add: count_list_remove1)
  qed
  show ?case using Cons.IH [OF rest fru] one by simp
qed

lemma steps_keep_holders:
  assumes lmok: "link_map_ok lm ls"
    and agree: "readers_agree nts ns lid0 (a0, b0, c0)"
    and off: "beside_get_ports nbi ns a0 b0"
  shows "steps_keep nbi lm nts ns ls (\<lambda>j k. True) (holders_input ns lid0)"
  unfolding steps_keep_def
proof (rule conjI; intro allI impI)
  fix t x assume "holders_input ns lid0 t"
  then show "holders_input ns lid0 (t\<lparr>skipped_gets := x\<rparr>)" by (simp add: holders_input_def)
next
  fix j k src lid and tp t t' :: gstate
  assume j: "j < length ns" "node_type (ns ! j) = VStr ''GetNode''"
      "nts (bound_name (ns ! j)) = Some src" "k < nports ns j"
    and tp: "holders_input ns lid0 tp" "lid \<in> set (links_at (st_nodes tp) j k)"
    and t: "holders_input ns lid0 t" and fr: "same_frame ns ls t"
    and step: "link_step nbi lm j (bound_name (ns ! j)) src k lid t = Inr t'"
  have lid: "lid0 \<in> set (links_at ns j k)" if "lid = lid0"
    using tp j that unfolding holders_input_def by blast
  show "holders_input ns lid0 t'"
    by (rule holders_step [OF lmok agree off j lid t fr step])
qed

lemma steps_keep_cleared:
  assumes lmok: "link_map_ok lm ls"
    and agree: "readers_agree nts ns lid0 (a0, b0, c0)"
    and off: "beside_get_ports nbi ns a0 b0"
    and j0: "j0 < length ns" "k0 < nports ns j0"
    and nadd: "\<not> (nbi a0 = Some j0 \<and> b0 = int k0)"
  shows "steps_keep nbi lm nts ns ls (\<lambda>j k. True)
           (\<lambda>t. holders_input ns lid0 t \<and> lid0 \<notin> set (links_at (st_nodes t) j0 k0))"
    (is "steps_keep _ _ _ _ _ _ ?I")
  unfolding steps_keep_def
proof (rule conjI; intro allI impI)
  fix t x assume "?I t"
  then show "?I (t\<lparr>skipped_gets := x\<rparr>)" by (simp add: holders_input_def)
next
  fix j k src lid and tp t t' :: gstate
  assume j: "j < length ns" "node_type (ns ! j) = VStr ''GetNode''"
      "nts (bound_name (ns ! j)) = Some src" "k < nports ns j"
    and tp: "?I tp" "lid \<in> set (links_at (st_nodes tp) j k)"
    and t: "?I t" and fr: "same_frame ns ls t"
    and step: "link_step nbi lm j (bound_name (ns ! j)) src k lid t = Inr t'"
  have lid: "lid0 \<in> set (links_at ns j k)" if "lid = lid0"
    using tp j that unfolding holders_input_def by blast
  have hold: "holders_input ns lid0 t'"
    by (rule holders_step [OF lmok agree off j lid _ fr step]) (use t in simp_all)
  have "lid0 \<notin> set (links_at (st_nodes t') j0 k0)"
  proof (cases "lid = lid0")
    case False
    then show ?thesis
      using link_step_member_other [OF step fr lmok j(1) j0, of lid0] t by simp
  next
    case True
    have src: "src = (a0, b0, c0)"
      using agree j lid [OF True] unfolding readers_agree_def by auto
    from link_step_member_same [OF step [unfolded src True] fr lmok j(1) j0]
    show ?thesis using t nadd by blast
  qed
  then show "?I t'" using hold by simp
qed

lemma get_pass_clears:
  assumes lmok: "link_map_ok lm ls" and li0: "lm lid0 = Some li0"
    and agree: "readers_agree nts ns lid0 (a0, b0, c0)"
    and off: "beside_get_ports nbi ns a0 b0"
    and j0: "j0 < length ns" "node_type (ns ! j0) = VStr ''GetNode''"
      "nts (bound_name (ns ! j0)) = Some (a0, b0, c0)" "k0 < nports ns j0"
    and nid0: "node_id (ns ! j0) = Some nid0" "nbi nid0 = Some j0"
    and nadd: "\<not> (nbi a0 = Some j0 \<and> b0 = int k0)"
    and run: "get_pass nbi lm nts \<lparr>st_nodes = ns, st_links = ls, rewired = [], skipped_gets = []\<rparr> = Inr s"
  shows "lid0 \<notin> set (links_at (st_nodes s) j0 k0)"
proof -
  note ska = steps_keep_holders [OF lmok agree off]
  note skb = steps_keep_cleared [OF lmok agree off j0(1,4) nadd]
  have "holders_input ns lid0 s \<and> lid0 \<notin> set (links_at (st_nodes s) j0 k0)"
  proof (rule get_pass_establish [OF ska skb j0 _ _ run])
    show "holders_input ns lid0 \<lparr>st_nodes = ns, st_links = ls, rewired = [], skipped_gets = []\<rparr>"
      by (simp add: holders_input_def)
  next
    fix u u' :: gstate
    assume u: "holders_input ns lid0 u" and fr: "same_frame ns ls u"
      and pst: "port_step nbi lm j0 (bound_name (ns ! j0)) (a0, b0, c0) k0 u = Inr u'"
    have "holders_input ns lid0 u' \<and> same_frame ns ls u'"
      by (rule port_step_keeps [OF ska j0(1-4) _ u fr pst]) simp
    moreover have "count_list (links_at (st_nodes u') j0 k0) lid0 =
        count_list (links_at (st_nodes u) j0 k0) lid0 - count_list (links_at (st_nodes u) j0 k0) lid0"
      by (rule links_loop_clears [OF lmok li0 j0(1,4) nid0 nadd _ fr])
        (use pst in \<open>simp add: port_step_def links_at_def\<close>)
    ultimately show "holders_input ns lid0 u' \<and> lid0 \<notin> set (links_at (st_nodes u') j0 k0)"
      by (simp add: count_list_0_iff)
  qed
  then show ?thesis by simp
qed

lemma plain_source_beside:
  assumes "nodes_by_id_ok nbi ns"
    and "\<forall>n \<in> set ns. node_id n = Some a \<longrightarrow> node_type n \<noteq> VStr ''GetNode''"
  shows "beside_get_ports nbi ns a b"
  unfolding beside_get_ports_def
proof (intro allI impI)
  fix i assume i: "nbi a = Some i" and g: "node_type (ns ! i) = VStr ''GetNode''"
  from i have "i < length ns" "node_id (ns ! i) = Some a"
    using assms(1) by (simp_all add: nodes_by_id_ok_def)
  then have False using assms(2) g by (meson nth_mem)
  then show "\<not> (0 \<le> b \<and> b < int (nports ns i))" ..
qed

lemma no_such_port_beside:
  assumes "nodes_by_id_ok nbi ns" and "no_such_port ns a b"
  shows "beside_get_ports nbi ns a b" and "j < length ns \<Longrightarrow> k < nports ns j \<Longrightarrow> \<not> (nbi a = Some j \<and> b = int k)"
proof -
  have np: "\<not> (0 \<le> b \<and> b < int (nports ns i))" if "nbi a = Some i" for i
  proof -
    from that have "i < length ns" "node_id (ns ! i) = Some a"
      using assms(1) by (simp_all add: nodes_by_id_ok_def)
    then show ?thesis using assms(2) unfolding no_such_port_def nports_def by (meson nth_mem)
  qed
  then show "beside_get_ports nbi ns a b" by (simp add: beside_get_ports_def)
  show "\<not> (nbi a = Some j \<and> b = int k)" if "j < length ns" "k < nports ns j"
    using np [of j] that by auto
qed


subsection \<open>The length of the trace\<close>










subsection \<open>The rewired count\<close>






subsection \<open>Unresolved GetNodes\<close>

lemma count_list_distinct: "distinct xs \<Longrightarrow> x \<in> set xs \<Longrightarrow> count_list xs x = 1"
  by (induction xs) auto

lemma port_step_skipped: "port_step nbi lm j name src k s = Inr s' \<Longrightarrow> skipped_gets s' = skipped_gets s"
  using port_step_frame by blast

lemma get_pass_skipped:
  assumes run: "get_pass nbi lm nts \<lparr>st_nodes = ns, st_links = ls, rewired = [], skipped_gets = []\<rparr> = Inr s"
  shows "map (\<lambda>p. (Some (fst p), snd p)) (skipped_gets s) =
         map (\<lambda>n. (node_id n, bound_name n))
           (filter (\<lambda>n. node_type n = VStr ''GetNode'' \<and> nts (bound_name n) = None) ns)"
proof -
  let ?s0 = "\<lparr>st_nodes = ns, st_links = ls, rewired = [], skipped_gets = []\<rparr>"
  let ?U = "\<lambda>n. node_type n = VStr ''GetNode'' \<and> nts (bound_name n) = None"
  let ?P = "\<lambda>m t. same_frame ns ls t \<and>
      map (\<lambda>p. (Some (fst p), snd p)) (skipped_gets t) =
      map (\<lambda>n. (node_id n, bound_name n)) (filter ?U (take m ns))"
  have run': "for_each (get_node_step nbi lm nts) [0..<length ns] ?s0 = Inr s"
    using run by (simp add: get_pass_def)
  have "?P (length ns) s"
  proof (rule for_each_upt_induct [OF run', where P = ?P])
    show "?P 0 ?s0" by (simp add: same_frame_def)
  next
    fix m and t t' :: gstate
    assume m: "m < length ns" and P: "?P m t" and st: "get_node_step nbi lm nts m t = Inr t'"
    from P have fr: "same_frame ns ls t" by simp
    have fr': "same_frame ns ls t'"
      using get_node_step_frame [OF st] fr by (simp add: same_frame_def)
    have tk: "take (Suc m) ns = take m ns @ [ns ! m]" using m by (simp add: take_Suc_conv_app_nth)
    from fr m st show "?P (Suc m) t'"
    proof (cases rule: get_node_step_cases)
      case other
      then show ?thesis using P tk by simp
    next
      case (skipped nid)
      then show ?thesis using P tk fr' by simp
    next
      case (resolved src)
      have "skipped_gets t' = skipped_gets t"
        by (rule for_each_inv [OF resolved(3), where I = "\<lambda>u. skipped_gets u = skipped_gets t"])
          (simp_all add: port_step_skipped)
      then show ?thesis using P tk fr' resolved by simp
    qed
  qed
  then show ?thesis by simp
qed

lemma skipped_once:
  assumes run: "get_pass nbi lm nts \<lparr>st_nodes = ns, st_links = ls, rewired = [], skipped_gets = []\<rparr> = Inr s"
    and dist: "distinct (map node_id ns)"
    and j: "j < length ns" "node_type (ns ! j) = VStr ''GetNode''" "nts (bound_name (ns ! j)) = None"
      "node_id (ns ! j) = Some nid"
  shows "count_list (skipped_gets s) (nid, bound_name (ns ! j)) = 1"
proof -
  let ?U = "\<lambda>n. node_type n = VStr ''GetNode'' \<and> nts (bound_name n) = None"
  let ?g = "\<lambda>p :: val \<times> val. (Some (fst p), snd p)"
  let ?h = "\<lambda>n. (node_id n, bound_name n)"
  have eq: "map ?g (skipped_gets s) = map ?h (filter ?U ns)" by (rule get_pass_skipped [OF run])
  have "distinct (map node_id (filter ?U ns))" using dist by (rule distinct_map_filter)
  then have "distinct (map fst (map ?h (filter ?U ns)))" by (simp add: comp_def)
  then have "distinct (map ?h (filter ?U ns))" by (simp only: distinct_map)
  then have "distinct (map ?g (skipped_gets s))" using eq by simp
  then have d: "distinct (skipped_gets s)" by (simp only: distinct_map)
  have "ns ! j \<in> set (filter ?U ns)" using j by simp
  then have "?h (ns ! j) \<in> ?h ` set (filter ?U ns)" by (rule imageI)
  then have "?h (ns ! j) \<in> set (map ?h (filter ?U ns))" by (simp only: set_map)
  then have "?g (nid, bound_name (ns ! j)) \<in> set (map ?g (skipped_gets s))"
    using eq j(4) by simp
  then have "(nid, bound_name (ns ! j)) \<in> set (skipped_gets s)" by auto
  then show ?thesis using d by (rule count_list_distinct [rotated])
qed

lemma link_step_port_subset:
  assumes step: "link_step nbi lm j name src k lid t = Inr t'"
    and fr: "same_frame ns ls t" and lmok: "link_map_ok lm ls" and j: "j < length ns"
    and j': "j' < length ns" "k' < nports ns j'"
  shows "set (links_at (st_nodes t') j' k') \<subseteq> insert lid (set (links_at (st_nodes t) j' k'))"
proof (cases "lm lid")
  case None
  then show ?thesis using step by (auto simp: link_step_absent)
next
  case (Some li)
  obtain a b c where abc: "src = (a, b, c)" by (cases src)
  from link_step_port [OF step [unfolded abc] Some fr lmok j j']
  obtain nid where eff: "links_at (st_nodes t') j' k' =
            (let l0 = links_at (st_nodes t) j' k';
                 l1 = (if nbi a = Some j' \<and> b = int k' \<and> lid \<notin> set l0 then l0 @ [lid] else l0)
             in if nbi nid = Some j' \<and> k = k' then remove1 lid l1 else l1)"
    by metis
  show ?thesis unfolding eff Let_def using set_remove1_subset by (fastforce split: if_splits)
qed

lemma link_step_port_grows:
  assumes step: "link_step nbi lm j name src k lid t = Inr t'"
    and fr: "same_frame ns ls t" and lmok: "link_map_ok lm ls"
    and j: "j < length ns" and ex: "ids_exact nbi ns"
    and j': "j' < length ns" "k' < nports ns j'" "j' \<noteq> j"
  shows "links_at (st_nodes t') j' k' = links_at (st_nodes t) j' k' \<or>
         links_at (st_nodes t') j' k' = links_at (st_nodes t) j' k' @ [lid]"
proof (cases "lm lid")
  case None
  then show ?thesis using step by (auto simp: link_step_absent)
next
  case (Some li)
  obtain a b c where abc: "src = (a, b, c)" by (cases src)
  from link_step_port_ids [OF step [unfolded abc] Some fr lmok ex j j'(1,2)]
  show ?thesis using j'(3) by (auto simp: Let_def)
qed

lemma steps_keep_port_grows:
  assumes ex: "ids_exact nbi ns" and lmok: "link_map_ok lm ls" and j0: "j0 < length ns" "k0 < nports ns j0"
    and un: "node_type (ns ! j0) \<noteq> VStr ''GetNode'' \<or> nts (bound_name (ns ! j0)) = None"
  shows "steps_keep nbi lm nts ns ls (\<lambda>j k. True)
           (\<lambda>t. \<exists>ys. links_at (st_nodes t) j0 k0 = links_at ns j0 k0 @ ys)"
  unfolding steps_keep_def
proof (rule conjI; intro allI impI)
  fix t :: gstate and x
  assume "\<exists>ys. links_at (st_nodes t) j0 k0 = links_at ns j0 k0 @ ys"
  then show "\<exists>ys. links_at (st_nodes (t\<lparr>skipped_gets := x\<rparr>)) j0 k0 = links_at ns j0 k0 @ ys"
    by simp
next
  fix j k src lid and tp t t' :: gstate
  assume j: "j < length ns" "node_type (ns ! j) = VStr ''GetNode''"
      "nts (bound_name (ns ! j)) = Some src"
    and t: "\<exists>ys. links_at (st_nodes t) j0 k0 = links_at ns j0 k0 @ ys"
    and fr: "same_frame ns ls t"
    and step: "link_step nbi lm j (bound_name (ns ! j)) src k lid t = Inr t'"
  have "j0 \<noteq> j" using un j by auto
  from link_step_port_grows [OF step fr lmok j(1) ex j0 this] t
  show "\<exists>ys. links_at (st_nodes t') j0 k0 = links_at ns j0 k0 @ ys" by auto
qed

lemma steps_keep_untouched:
  assumes lmok: "link_map_ok lm ls"
  shows "steps_keep nbi lm nts ns ls (\<lambda>j k. True) (untouched_links nts ns ls)"
  unfolding steps_keep_def
proof (rule conjI; intro allI impI)
  fix t :: gstate and x
  assume "untouched_links nts ns ls t"
  then show "untouched_links nts ns ls (t\<lparr>skipped_gets := x\<rparr>)"
    by (simp add: untouched_links_def)
next
  fix j k src lid and tp t t' :: gstate
  assume j: "j < length ns" "node_type (ns ! j) = VStr ''GetNode''"
      "nts (bound_name (ns ! j)) = Some src" "k < nports ns j"
    and tp: "untouched_links nts ns ls tp" "lid \<in> set (links_at (st_nodes tp) j k)"
    and t: "untouched_links nts ns ls t" and fr: "same_frame ns ls t"
    and step: "link_step nbi lm j (bound_name (ns ! j)) src k lid t = Inr t'"
  have "nts (bound_name (ns ! j)) \<noteq> None" using j(3) by simp
  then have lid: "attached_resolved nts ns lid"
    using tp j(1,2,4) unfolding untouched_links_def by blast
  have ports: "\<forall>x \<in> set (links_at (st_nodes t') j' k'). attached_resolved nts ns x"
    if "j' < length ns" "node_type (ns ! j') = VStr ''GetNode''"
      "nts (bound_name (ns ! j')) \<noteq> None" "k' < nports ns j'" for j' k'
  proof
    fix x assume "x \<in> set (links_at (st_nodes t') j' k')"
    then have "x = lid \<or> x \<in> set (links_at (st_nodes t) j' k')"
      using link_step_port_subset [OF step fr lmok j(1) that(1,4)] by auto
    then show "attached_resolved nts ns x"
      using lid t that unfolding untouched_links_def by blast
  qed
  have links: "st_links t' ! li = ls ! li"
    if "li < length ls" "\<not> attached_resolved nts ns (l_id (ls ! li))" for li
  proof (cases "lm lid")
    case None
    then show ?thesis using step t that by (simp add: link_step_absent untouched_links_def)
  next
    case (Some li')
    obtain a b c where abc: "src = (a, b, c)" by (cases src)
    have "l_id (ls ! li') = lid" using lmok Some by (simp add: link_map_ok_def)
    then have "li' \<noteq> li" using that(2) lid by auto
    then have "st_links t' ! li = st_links t ! li"
      using link_step_links [OF step [unfolded abc] Some fr lmok j(1)] by simp
    then show ?thesis using t that by (simp add: untouched_links_def)
  qed
  show "untouched_links nts ns ls t'"
    unfolding untouched_links_def using ports links by blast
qed

text \<open>
  C6, as the code has it.  Take a GetNode whose name has no entry in the name table, in a
  graph whose node ids are pairwise different.  Then the pair (its id, its name) occurs
  exactly once in \<open>skipped_gets\<close>; each of its output ports still holds the link ids of the
  input, in the same order, possibly followed by link ids the pass has re-sourced to this
  node (none when the graph has no chaining); and every link whose id is on no port of a
  resolved GetNode is as in the input.
\<close>

theorem unresolved_get_preserved:
  assumes rp: "rewrite_phase w = Inr (nts, cfs, s)"
    and ns: "wf_nodes w = Present ns" and ls: "wf_links w = Present ls"
    and j: "j < length ns" "node_type (ns ! j) = VStr ''GetNode''"
      "nts (bound_name (ns ! j)) = None" "node_id (ns ! j) = Some nid"
    and dist: "distinct (map node_id ns)"
  shows "count_list (skipped_gets s) (nid, bound_name (ns ! j)) = 1 \<and>
         (\<forall>k < nports ns j. \<exists>ys. links_at (st_nodes s) j k = links_at ns j k @ ys) \<and>
         (sources_plain nts ns \<longrightarrow>
            (\<forall>k < nports ns j. links_at (st_nodes s) j k = links_at ns j k)) \<and>
         (\<forall>li < length ls. \<not> attached_resolved nts ns (l_id (ls ! li)) \<longrightarrow>
            st_links s ! li = ls ! li)"
proof -
  let ?s0 = "\<lparr>st_nodes = ns, st_links = ls, rewired = [], skipped_gets = []\<rparr>"
  let ?lm = "index_links 0 ls Map.empty"
  from rp ns ls obtain nbi where nbi: "index_nodes 0 ns Map.empty = Inr nbi"
    and gp: "get_pass nbi ?lm nts ?s0 = Inr s" and ne: "links_nonempty ls"
    by (auto elim!: rewrite_phase_InrD)
  have lmok: "link_map_ok ?lm ls" by (rule index_links_sound [OF ne])
  have ex: "ids_exact nbi ns" by (rule index_nodes_exact [OF nbi dist])
  have 1: "count_list (skipped_gets s) (nid, bound_name (ns ! j)) = 1"
    by (rule skipped_once [OF gp dist j])
  have 2: "\<exists>ys. links_at (st_nodes s) j k = links_at ns j k @ ys" if "k < nports ns j" for k
  proof -
    have "(\<exists>ys. links_at (st_nodes s) j k = links_at ns j k @ ys) \<and> same_frame ns ls s"
      by (rule get_pass_keeps [OF steps_keep_port_grows [OF ex lmok j(1) that] _ gp])
        (use j(3) in simp_all)
    then show ?thesis by simp
  qed
  have 3: "links_at (st_nodes s) j k = links_at ns j k"
    if "sources_plain nts ns" "k < nports ns j" for k
  proof -
    have nc: "no_chaining nbi nts ns"
      by (rule sources_plain_no_chaining [OF that(1) index_nodes_sound [OF nbi]])
    from get_pass_exact [OF nc ex lmok gp] show ?thesis using j that(2) by simp
  qed
  have "untouched_links nts ns ls ?s0"
    by (auto simp: untouched_links_def attached_resolved_def)
  from get_pass_keeps [OF steps_keep_untouched [OF lmok] this gp]
  have 4: "\<forall>li < length ls. \<not> attached_resolved nts ns (l_id (ls ! li)) \<longrightarrow>
            st_links s ! li = ls ! li"
    by (simp add: untouched_links_def)
  show ?thesis using 1 2 3 4 by blast
qed

theorem unresolved_get_preserved_witness:
  "\<exists>nts cfs s.
     rewrite_phase orphan_workflow = Inr (nts, cfs, s) \<and>
     count_list (skipped_gets s) (VInt 2, VStr ''Z'') = 1 \<and>
     links_at (st_nodes s) 0 0 = [VInt 20] \<and>
     st_links s ! 0 = mk_link 20 2 0 3 0 ''IMAGE''"
proof -
  have ns: "wf_nodes orphan_workflow = Present orphan_nodes"
    and ls: "wf_links orphan_workflow = Present orphan_links"
    by (simp_all add: orphan_workflow_def)
  have "ids_present orphan_nodes" "outputs_listed orphan_nodes" "links_six orphan_links"
    by (simp_all add: orphan_nodes_def orphan_links_def mk_node_def mk_link_def ids_present_def
        outputs_listed_def links_six_def)
  then obtain nts cfs s where rp: "rewrite_phase orphan_workflow = Inr (nts, cfs, s)"
    using rewrite_phase_returns [OF ns ls] by blast
  have bs: "bindings (index_links 0 orphan_links Map.empty) orphan_links orphan_nodes = []"
    by code_simp
  have nts: "nts = (\<lambda>name. None)"
    using rewrite_phase_table(1) [OF rp ns ls] bs by (simp add: first_binding_def fun_eq_iff)
  have j: "0 < length orphan_nodes" "node_type (orphan_nodes ! 0) = VStr ''GetNode''"
    "nts (bound_name (orphan_nodes ! 0)) = None" "node_id (orphan_nodes ! 0) = Some (VInt 2)"
    by (simp_all add: orphan_nodes_def mk_node_def nts)
  have dist: "distinct (map node_id orphan_nodes)"
    by (simp add: orphan_nodes_def mk_node_def)
  have plain: "sources_plain nts orphan_nodes" by (simp add: sources_plain_def nts)
  have np: "0 < nports orphan_nodes 0"
    by (simp add: orphan_nodes_def mk_node_def nports_def node_outputs_def)
  have at: "links_at orphan_nodes 0 0 = [VInt 20]"
    by (simp add: orphan_nodes_def mk_node_def links_at_def node_outputs_def port_links_def)
  have nm: "bound_name (orphan_nodes ! 0) = VStr ''Z''"
    by (simp add: orphan_nodes_def mk_node_def bound_name_def)
  have un: "\<not> attached_resolved nts orphan_nodes (l_id (orphan_links ! 0))"
    by (simp add: attached_resolved_def nts)
  have l0: "0 < length orphan_links" "orphan_links ! 0 = mk_link 20 2 0 3 0 ''IMAGE''"
    by (simp_all add: orphan_links_def)
  from unresolved_get_preserved [OF rp ns ls j dist] plain np at nm un l0 rp
  show ?thesis by auto
qed

text \<open>GetNode 2 is unresolved, yet its port 0, which held link 20 only, holds links 20
  and 30 after the pass: link 30 was re-sourced to node 2, the source bound to Y.\<close>

theorem unresolved_get_preserved_counterexample:
  "node_type (fed_orphan_nodes ! 0) = VStr ''GetNode'' \<and>
   table_after fed_orphan_workflow (bound_name (fed_orphan_nodes ! 0)) = None \<and>
   links_at fed_orphan_nodes 0 0 = [VInt 20] \<and>
   links_at (nodes_after fed_orphan_workflow) 0 0 = [VInt 20, VInt 30]"
  by code_simp


subsection \<open>Links rewritten to their resolved source\<close>

lemma rewrite_phase_settles:
  assumes rp: "rewrite_phase w = Inr (nts, cfs, s)"
    and ns: "wf_nodes w = Present ns" and ls: "wf_links w = Present ls"
    and nbi: "index_nodes 0 ns Map.empty = Inr nbi"
    and j: "j < length ns" "node_type (ns ! j) = VStr ''GetNode''"
      "nts (bound_name (ns ! j)) = Some (a, b, c)"
    and k: "k < nports ns j" "lid \<in> set (links_at ns j k)"
    and li: "index_links 0 ls Map.empty lid = Some li"
    and off: "beside_get_ports nbi ns a b"
    and agree: "readers_agree nts ns lid (a, b, c)"
  shows "li < length ls"
    and "st_links s ! li = (ls ! li)\<lparr>from_node := a, from_slot := b, ltype := c\<rparr>"
proof -
  from rp ns ls nbi have ne: "links_nonempty ls"
    and gp: "get_pass nbi (index_links 0 ls Map.empty) nts
      \<lparr>st_nodes = ns, st_links = ls, rewired = [], skipped_gets = []\<rparr> = Inr s"
    by (auto elim!: rewrite_phase_InrD)
  have lmok: "link_map_ok (index_links 0 ls Map.empty) ls" by (rule index_links_sound [OF ne])
  show "li < length ls" using lmok li by (simp add: link_map_ok_def)
  have "link_settled ls li (a, b, c) s"
    using get_pass_settles [OF lmok li agree off j k gp] by simp
  then show "st_links s ! li = (ls ! li)\<lparr>from_node := a, from_slot := b, ltype := c\<rparr>"
    by (simp add: link_settled_def)
qed

text \<open>
  C1, as the code has it.  The rewrite pass leaves the id, the target node id, the target
  slot and the length of every link as they were.  Take a GetNode whose name is bound to
  (a, b, c), a link id on one of its output ports and the link that the link map holds for
  that id.  If no node with the id a is a GetNode, and every GetNode that holds the link id
  on an output port is unresolved or bound to the same triple, then after the pass the link
  is the input link with source node a, source slot b and type tag c, and its source node
  is not the GetNode.
\<close>

theorem direct_source:
  assumes rp: "rewrite_phase w = Inr (nts, cfs, s)"
    and ns: "wf_nodes w = Present ns" and ls: "wf_links w = Present ls"
  shows "map link_frame (st_links s) = map link_frame ls \<and>
         (\<forall>j k lid li a b c.
            j < length ns \<longrightarrow> node_type (ns ! j) = VStr ''GetNode'' \<longrightarrow>
            nts (bound_name (ns ! j)) = Some (a, b, c) \<longrightarrow>
            k < nports ns j \<longrightarrow> lid \<in> set (links_at ns j k) \<longrightarrow>
            index_links 0 ls Map.empty lid = Some li \<longrightarrow>
            (\<forall>n \<in> set ns. node_id n = Some a \<longrightarrow> node_type n \<noteq> VStr ''GetNode'') \<longrightarrow>
            readers_agree nts ns lid (a, b, c) \<longrightarrow>
            li < length ls \<and>
            st_links s ! li = (ls ! li)\<lparr>from_node := a, from_slot := b, ltype := c\<rparr> \<and>
            node_id (ns ! j) \<noteq> Some (from_node (st_links s ! li)))"
proof (rule conjI; (intro allI impI)?)
  show "map link_frame (st_links s) = map link_frame ls"
    by (rule rewrite_phase_frame(2) [OF rp ns ls])
next
  fix j k lid li a b c
  assume j: "j < length ns" "node_type (ns ! j) = VStr ''GetNode''"
      "nts (bound_name (ns ! j)) = Some (a, b, c)"
    and k: "k < nports ns j" "lid \<in> set (links_at ns j k)"
    and li: "index_links 0 ls Map.empty lid = Some li"
    and plain: "\<forall>n \<in> set ns. node_id n = Some a \<longrightarrow> node_type n \<noteq> VStr ''GetNode''"
    and agree: "readers_agree nts ns lid (a, b, c)"
  from rp ns ls obtain nbi where nbi: "index_nodes 0 ns Map.empty = Inr nbi"
    by (auto elim!: rewrite_phase_InrD)
  have off: "beside_get_ports nbi ns a b"
    by (rule plain_source_beside [OF index_nodes_sound [OF nbi] plain])
  note st = rewrite_phase_settles [OF rp ns ls nbi j k li off agree]
  have "node_id (ns ! j) \<noteq> Some a" using plain j(1,2) by (metis nth_mem)
  then show "li < length ls \<and>
            st_links s ! li = (ls ! li)\<lparr>from_node := a, from_slot := b, ltype := c\<rparr> \<and>
            node_id (ns ! j) \<noteq> Some (from_node (st_links s ! li))"
    using st by simp
qed

theorem direct_source_witness:
  "\<exists>nts cfs s.
     rewrite_phase example_workflow = Inr (nts, cfs, s) \<and>
     nts (VStr ''X'') = Some (VInt 5, 0, VStr ''IMAGE'') \<and>
     map link_frame (st_links s) = map link_frame example_links \<and>
     st_links s ! 1 = mk_link 20 5 0 3 0 ''IMAGE'' \<and>
     node_id (example_nodes ! 2) \<noteq> Some (from_node (st_links s ! 1))"
proof -
  note ns = example_shape(1) and ls = example_shape(2)
  obtain nts cfs s where rp: "rewrite_phase example_workflow = Inr (nts, cfs, s)"
    using rewrite_phase_returns [OF example_shape(1-5)] by blast
  have bs: "bindings (index_links 0 example_links Map.empty) example_links example_nodes =
      [(VStr ''X'', (VInt 5, 0, VStr ''IMAGE''), Some (VInt 1))]"
    by code_simp
  have nts: "nts = first_binding [(VStr ''X'', (VInt 5, 0, VStr ''IMAGE''), Some (VInt 1))]"
    using rewrite_phase_table(1) [OF rp ns ls] bs by simp
  have j: "2 < length example_nodes" "node_type (example_nodes ! 2) = VStr ''GetNode''"
    "nts (bound_name (example_nodes ! 2)) = Some (VInt 5, 0, VStr ''IMAGE'')"
    by (simp_all add: example_nodes_def mk_node_def nts first_binding_def bound_name_def)
  have k: "0 < nports example_nodes 2" "VInt 20 \<in> set (links_at example_nodes 2 0)"
    by (simp_all add: example_nodes_def mk_node_def nports_def links_at_def node_outputs_def
        port_links_def)
  have li: "index_links 0 example_links Map.empty (VInt 20) = Some 1"
    by (simp add: example_links_def mk_link_def)
  have plain: "\<forall>n \<in> set example_nodes. node_id n = Some (VInt 5) \<longrightarrow> node_type n \<noteq> VStr ''GetNode''"
    by (simp add: example_nodes_def mk_node_def)
  have agree: "readers_agree nts example_nodes (VInt 20) (VInt 5, 0, VStr ''IMAGE'')"
    unfolding readers_agree_def
    by (auto simp: nts first_binding_def example_nodes_def mk_node_def bound_name_def
        less_Suc_eq numeral_eq_Suc nth_Cons')
  have x: "nts (VStr ''X'') = Some (VInt 5, 0, VStr ''IMAGE'')"
    by (simp add: nts first_binding_def)
  have lk: "(example_links ! 1)\<lparr>from_node := VInt 5, from_slot := 0, ltype := VStr ''IMAGE''\<rparr> =
      mk_link 20 5 0 3 0 ''IMAGE''"
    by (simp add: example_links_def mk_link_def)
  note main = direct_source [OF rp ns ls]
  from main [THEN conjunct2] j k li plain agree
  have "st_links s ! 1 =
      (example_links ! 1)\<lparr>from_node := VInt 5, from_slot := 0, ltype := VStr ''IMAGE''\<rparr> \<and>
    node_id (example_nodes ! 2) \<noteq> Some (from_node (st_links s ! 1))"
    by blast
  with main [THEN conjunct1] rp x lk show ?thesis by auto
qed

text \<open>In the chained workflow GetNode 4 (position 3) reads Y, which is bound to
  (2, 0, IMAGE); its link 30 is in the link map; yet after the pass link 30 comes from
  node 5: GetNode 2, visited later, found link 30 registered on its own port and rewrote
  it again.\<close>

theorem direct_source_counterexample:
  "node_type (chain_nodes ! 3) = VStr ''GetNode'' \<and>
   table_after chain_workflow (bound_name (chain_nodes ! 3)) = Some (VInt 2, 0, VStr ''IMAGE'') \<and>
   links_at chain_nodes 3 0 = [VInt 30] \<and>
   index_links 0 chain_links Map.empty (VInt 30) = Some 2 \<and>
   links_after chain_workflow ! 2 = mk_link 30 5 0 6 0 ''IMAGE''"
  by code_simp


subsection \<open>Bindings whose source is no output port of the graph\<close>

lemma add_link_no_port:
  assumes "no_such_port ns a b" and "nodes_by_id_ok nbi ns"
    and "map node_frame ns' = map node_frame ns"
  shows "add_link nbi a b lid ns' = ns'"
proof (cases "nbi a")
  case None
  then show ?thesis by (simp add: add_link_def)
next
  case (Some i)
  then have i: "i < length ns" "node_id (ns ! i) = Some a"
    using assms(2) by (simp_all add: nodes_by_id_ok_def)
  then have "\<not> (0 \<le> b \<and> b < int (length (node_outputs (ns ! i))))"
    using assms(1) unfolding no_such_port_def by (meson nth_mem)
  moreover have "length (node_outputs (ns' ! i)) = length (node_outputs (ns ! i))"
    using map_frame_nth [OF assms(3) i(1)] by (simp add: node_frame_def)
  ultimately show ?thesis using Some by (simp add: add_link_def Let_def)
qed

lemma convert_keep:
  assumes "rewrite_phase w = Inr (nts, cfs, s)" and "report_slot_ok (wf_extra w)"
  shows "\<exists>w'. convert_setget_to_hardlines w False = Inr w' \<and>
           wf_nodes w' = Present (st_nodes s) \<and> wf_links w' = Present (st_links s)"
  using assms
  by (simp add: convert_setget_to_hardlines_def prune_def attach_report_merge)

text \<open>
  C10, as the code has it.  Take a graph whose node ids are pairwise different and a
  resolved GetNode, bound to (a, b, c), where (a, b) names no output port: no node has the
  id a, or the node that has it has no port b.  Then every link id on a port of the GetNode
  that maps to a link has its entry in the trace, so it is counted.  When every GetNode
  that holds the link id on an output port is unresolved or bound to the same triple, the
  link ends as the input link with source node a, source slot b and type tag c, and the
  link id is gone from the port of the GetNode.  \<open>add_output_link\<close> leaves the nodes as
  they are for that source (it raises TypeError when the node with the id a has
  \<open>'outputs': null\<close> and b is not negative).  When no node has the id a, none has it after
  the pass: the graph returned without pruning holds links whose source node id matches no
  node.
\<close>

theorem dangling_source_rewired:
  assumes rp: "rewrite_phase w = Inr (nts, cfs, s)"
    and ns: "wf_nodes w = Present ns" and ls: "wf_links w = Present ls"
    and dist: "distinct (map node_id ns)"
    and j: "j < length ns" "node_type (ns ! j) = VStr ''GetNode''"
      "nts (bound_name (ns ! j)) = Some (a, b, c)" "node_id (ns ! j) = Some nid"
    and dangling: "no_such_port ns a b"
  shows "(\<forall>k < nports ns j. \<forall>lid \<in> set (links_at ns j k). \<forall>li.
            index_links 0 ls Map.empty lid = Some li \<longrightarrow>
            (bound_name (ns ! j), lid, nid, a) \<in> set (rewired s) \<and>
            (readers_agree nts ns lid (a, b, c) \<longrightarrow>
               st_links s ! li = (ls ! li)\<lparr>from_node := a, from_slot := b, ltype := c\<rparr> \<and>
               lid \<notin> set (links_at (st_nodes s) j k))) \<and>
         (\<forall>nbi lid ns'. index_nodes 0 ns Map.empty = Inr nbi \<longrightarrow>
            map node_frame ns' = map node_frame ns \<longrightarrow>
            add_output_link nbi a b lid ns' =
              (if null_port nbi a b ns' then Inl TypeError else Inr ns')) \<and>
         (Some a \<notin> set (map node_id ns) \<longrightarrow> Some a \<notin> set (map node_id (st_nodes s))) \<and>
         (report_slot_ok (wf_extra w) \<longrightarrow>
            (\<exists>w'. convert_setget_to_hardlines w False = Inr w' \<and>
               wf_nodes w' = Present (st_nodes s) \<and> wf_links w' = Present (st_links s)))"
proof -
  let ?lm = "index_links 0 ls Map.empty"
  from rp ns ls obtain nbi where nbi: "index_nodes 0 ns Map.empty = Inr nbi"
    and ne: "links_nonempty ls"
    and gp: "get_pass nbi ?lm nts \<lparr>st_nodes = ns, st_links = ls, rewired = [], skipped_gets = []\<rparr> = Inr s"
    by (auto elim!: rewrite_phase_InrD)
  have ex: "ids_exact nbi ns" by (rule index_nodes_exact [OF nbi dist])
  have nbok: "nodes_by_id_ok nbi ns" by (rule index_nodes_sound [OF nbi])
  have lmok: "link_map_ok ?lm ls" by (rule index_links_sound [OF ne])
  have off: "beside_get_ports nbi ns a b" by (rule no_such_port_beside(1) [OF nbok dangling])
  have here: "nbi nid = Some j" using ex j(1,4) unfolding ids_exact_def by fastforce
  have 1: "(bound_name (ns ! j), lid, nid, a) \<in> set (rewired s) \<and>
            (readers_agree nts ns lid (a, b, c) \<longrightarrow>
               st_links s ! li = (ls ! li)\<lparr>from_node := a, from_slot := b, ltype := c\<rparr> \<and>
               lid \<notin> set (links_at (st_nodes s) j k))"
    if k: "k < nports ns j" and lid: "lid \<in> set (links_at ns j k)" and li: "?lm lid = Some li"
    for k lid li
  proof (intro conjI impI)
    have "(bound_name (ns ! j), lid, nid, fst (a, b, c)) \<in> set (rewired s)"
      by (rule get_pass_traced [OF lmok li ex j(1-3) k j(4) lid gp])
    then show "(bound_name (ns ! j), lid, nid, a) \<in> set (rewired s)" by simp
  next
    assume agree: "readers_agree nts ns lid (a, b, c)"
    show "st_links s ! li = (ls ! li)\<lparr>from_node := a, from_slot := b, ltype := c\<rparr>"
      by (rule rewrite_phase_settles(2) [OF rp ns ls nbi j(1-3) k lid li off agree])
    have nadd: "\<not> (nbi a = Some j \<and> b = int k)"
      by (rule no_such_port_beside(2) [OF nbok dangling j(1) k])
    show "lid \<notin> set (links_at (st_nodes s) j k)"
      by (rule get_pass_clears [OF lmok li agree off j(1-3) k j(4) here nadd gp])
  qed
  have 2: "add_output_link nbi' a b lid ns' =
              (if null_port nbi' a b ns' then Inl TypeError else Inr ns')"
    if "index_nodes 0 ns Map.empty = Inr nbi'" "map node_frame ns' = map node_frame ns"
    for nbi' lid ns'
    using add_link_no_port [OF dangling index_nodes_sound [OF that(1)] that(2)]
    by (simp add: add_output_link_eq)
  have "map node_frame (st_nodes s) = map node_frame ns"
    by (rule rewrite_phase_frame(1) [OF rp ns ls])
  then have "map fst (map node_frame (st_nodes s)) = map fst (map node_frame ns)" by simp
  then have "map node_id (st_nodes s) = map node_id ns" by (simp add: node_frame_def comp_def)
  then have 3: "Some a \<notin> set (map node_id ns) \<longrightarrow> Some a \<notin> set (map node_id (st_nodes s))"
    by simp
  have 4: "report_slot_ok (wf_extra w) \<longrightarrow>
            (\<exists>w'. convert_setget_to_hardlines w False = Inr w' \<and>
               wf_nodes w' = Present (st_nodes s) \<and> wf_links w' = Present (st_links s))"
    using convert_keep [OF rp] by blast
  show ?thesis using 1 2 3 4 by blast
qed

theorem dangling_source_rewired_witness:
  "\<exists>nts cfs s w'.
     rewrite_phase dangling_workflow = Inr (nts, cfs, s) \<and>
     nts (VStr ''X'') = Some (VInt 99, 0, VStr ''IMAGE'') \<and>
     distinct (map node_id dangling_nodes) \<and>
     no_such_port dangling_nodes (VInt 99) 0 \<and>
     readers_agree nts dangling_nodes (VInt 20) (VInt 99, 0, VStr ''IMAGE'') \<and>
     st_links s ! 1 = mk_link 20 99 0 3 0 ''IMAGE'' \<and>
     (VStr ''X'', VInt 20, VInt 2, VInt 99) \<in> set (rewired s) \<and>
     VInt 20 \<notin> set (links_at (st_nodes s) 1 0) \<and>
     Some (VInt 99) \<notin> set (map node_id (st_nodes s)) \<and>
     convert_setget_to_hardlines dangling_workflow False = Inr w' \<and>
     wf_nodes w' = Present (st_nodes s) \<and> wf_links w' = Present (st_links s)"
proof -
  have ns: "wf_nodes dangling_workflow = Present dangling_nodes"
    and ls: "wf_links dangling_workflow = Present dangling_links"
    and ok: "report_slot_ok (wf_extra dangling_workflow)"
    by (simp_all add: dangling_workflow_def report_slot_ok_def)
  have "ids_present dangling_nodes" "outputs_listed dangling_nodes" "links_six dangling_links"
    by (simp_all add: dangling_nodes_def dangling_links_def mk_node_def mk_link_def
        ids_present_def outputs_listed_def links_six_def)
  then obtain nts cfs s where rp: "rewrite_phase dangling_workflow = Inr (nts, cfs, s)"
    using rewrite_phase_returns [OF ns ls] by blast
  have bs: "bindings (index_links 0 dangling_links Map.empty) dangling_links dangling_nodes =
      [(VStr ''X'', (VInt 99, 0, VStr ''IMAGE''), Some (VInt 1))]"
    by code_simp
  have nts: "nts = first_binding [(VStr ''X'', (VInt 99, 0, VStr ''IMAGE''), Some (VInt 1))]"
    using rewrite_phase_table(1) [OF rp ns ls] bs by simp
  have dist: "distinct (map node_id dangling_nodes)"
    by (simp add: dangling_nodes_def mk_node_def)
  have j: "1 < length dangling_nodes" "node_type (dangling_nodes ! 1) = VStr ''GetNode''"
    "nts (bound_name (dangling_nodes ! 1)) = Some (VInt 99, 0, VStr ''IMAGE'')"
    "node_id (dangling_nodes ! 1) = Some (VInt 2)"
    by (simp_all add: dangling_nodes_def mk_node_def nts first_binding_def bound_name_def)
  have dangling: "no_such_port dangling_nodes (VInt 99) 0"
    by (simp add: no_such_port_def dangling_nodes_def mk_node_def)
  have k: "0 < nports dangling_nodes 1" "VInt 20 \<in> set (links_at dangling_nodes 1 0)"
    by (simp_all add: dangling_nodes_def mk_node_def nports_def links_at_def node_outputs_def
        port_links_def)
  have li: "index_links 0 dangling_links Map.empty (VInt 20) = Some 1"
    by (simp add: dangling_links_def mk_link_def)
  have agree: "readers_agree nts dangling_nodes (VInt 20) (VInt 99, 0, VStr ''IMAGE'')"
    unfolding readers_agree_def
    by (auto simp: nts first_binding_def dangling_nodes_def mk_node_def bound_name_def
        less_Suc_eq numeral_eq_Suc nth_Cons')
  have x: "nts (VStr ''X'') = Some (VInt 99, 0, VStr ''IMAGE'')"
    by (simp add: nts first_binding_def)
  have nm: "bound_name (dangling_nodes ! 1) = VStr ''X''"
    by (simp add: dangling_nodes_def mk_node_def bound_name_def)
  have lk: "(dangling_links ! 1)\<lparr>from_node := VInt 99, from_slot := 0, ltype := VStr ''IMAGE''\<rparr> =
      mk_link 20 99 0 3 0 ''IMAGE''"
    by (simp add: dangling_links_def mk_link_def)
  have no99: "Some (VInt 99) \<notin> set (map node_id dangling_nodes)"
    by (simp add: dangling_nodes_def mk_node_def)
  note main = dangling_source_rewired [OF rp ns ls dist j dangling]
  from main k li agree
  have a: "st_links s ! 1 = mk_link 20 99 0 3 0 ''IMAGE''"
    and b: "(VStr ''X'', VInt 20, VInt 2, VInt 99) \<in> set (rewired s)"
    and c: "VInt 20 \<notin> set (links_at (st_nodes s) 1 0)"
    using lk nm by auto
  from main no99 have d: "Some (VInt 99) \<notin> set (map node_id (st_nodes s))" by blast
  from main ok obtain w' where e: "convert_setget_to_hardlines dangling_workflow False = Inr w'"
    "wf_nodes w' = Present (st_nodes s)" "wf_links w' = Present (st_links s)" by blast
  show ?thesis using rp x dist dangling agree a b c d e by blast
qed

text \<open>In the twin workflow GetNode 2 (position 1) reads X, which is bound to
  (99, 0, IMAGE); no node has the id 99; link 20 is on its port 0 and in the link map.
  The link is rewritten, but its id stays on the port of the GetNode:
  \<open>remove_output_link\<close> looks the id 2 up in \<open>nodes_by_id\<close> and finds the other node.\<close>

theorem dangling_source_rewired_counterexample:
  "node_type (twin_nodes ! 1) = VStr ''GetNode'' \<and>
   table_after twin_workflow (bound_name (twin_nodes ! 1)) = Some (VInt 99, 0, VStr ''IMAGE'') \<and>
   filter (\<lambda>n. node_id n = Some (VInt 99)) twin_nodes = [] \<and>
   distinct (map node_id twin_nodes) = False \<and>
   links_at twin_nodes 1 0 = [VInt 20] \<and>
   index_links 0 dangling_links Map.empty (VInt 20) = Some 1 \<and>
   links_after twin_workflow ! 1 = mk_link 20 99 0 3 0 ''IMAGE'' \<and>
   links_at (nodes_after twin_workflow) 1 0 = [VInt 20]"
  by code_simp


subsection \<open>The first binding of a name wins\<close>

lemma steps_keep_table:
  "steps_keep nbi lm nts ns ls (\<lambda>j k. True)
     (\<lambda>t. \<forall>e \<in> set (rewired t). \<exists>b c. nts (fst e) = Some (snd (snd (snd e)), b, c))"
  unfolding steps_keep_def
proof (rule conjI; intro allI impI)
  fix t :: gstate and x
  assume "\<forall>e \<in> set (rewired t). \<exists>b c. nts (fst e) = Some (snd (snd (snd e)), b, c)"
  then show "\<forall>e \<in> set (rewired (t\<lparr>skipped_gets := x\<rparr>)).
      \<exists>b c. nts (fst e) = Some (snd (snd (snd e)), b, c)"
    by simp
next
  fix j k src lid and t t' :: gstate
  assume src: "nts (bound_name (ns ! j)) = Some src"
    and t: "\<forall>e \<in> set (rewired t). \<exists>b c. nts (fst e) = Some (snd (snd (snd e)), b, c)"
    and step: "link_step nbi lm j (bound_name (ns ! j)) src k lid t = Inr t'"
  from step show "\<forall>e \<in> set (rewired t'). \<exists>b c. nts (fst e) = Some (snd (snd (snd e)), b, c)"
  proof (cases rule: link_step_cases)
    case skip
    then show ?thesis using t by simp
  next
    case (rewrite a b c li nid)
    then show ?thesis using t src by auto
  qed
qed

lemma off_get_ports_beside:
  assumes "nodes_by_id_ok nbi ns" and "off_get_ports ns a b"
  shows "beside_get_ports nbi ns a b"
  unfolding beside_get_ports_def
proof (intro allI impI)
  fix i assume i: "nbi a = Some i" and g: "node_type (ns ! i) = VStr ''GetNode''"
  from i have "i < length ns" "node_id (ns ! i) = Some a"
    using assms(1) by (simp_all add: nodes_by_id_ok_def)
  then show "\<not> (0 \<le> b \<and> b < int (nports ns i))"
    using assms(2) g unfolding off_get_ports_def nports_def by (meson nth_mem)
qed

text \<open>
  C2, as the code has it.  After the rewrite pass the name table is the first-binding
  table: every name is bound to the triple of the first SetNode, in node order, that
  resolved it, so no later SetNode overwrites it.  The conflicts list is, in node order,
  one entry (name, first binding, own binding, own id) for each resolving SetNode whose
  triple differs from the first binding of its name, and nothing for the others.  Every
  entry of the trace carries the source node that the table binds to the entry's name.
  Take a GetNode whose name the table binds to (a, b, c), and a link id on one of its
  output ports that maps to a link.  If the node ids of the graph are pairwise different,
  the link is rewritten at that GetNode: the trace has the entry (name, link id, id of the
  GetNode, a).  If (a, b) is no output port of a GetNode and every GetNode that holds the
  link id on an output port is unresolved or bound to the same triple, the link ends as the
  input link with source node a, source slot b and type tag c.
\<close>

theorem first_binding_wins:
  assumes rp: "rewrite_phase w = Inr (nts, cfs, s)"
    and ns: "wf_nodes w = Present ns" and ls: "wf_links w = Present ls"
  shows "nts = first_binding (bindings (index_links 0 ls Map.empty) ls ns) \<and>
         cfs = divergent (bindings (index_links 0 ls Map.empty) ls ns) \<and>
         (\<forall>e \<in> set (rewired s). \<exists>b c.
            first_binding (bindings (index_links 0 ls Map.empty) ls ns) (fst e) =
              Some (snd (snd (snd e)), b, c)) \<and>
         (\<forall>j k lid li a b c nid.
            j < length ns \<longrightarrow> node_type (ns ! j) = VStr ''GetNode'' \<longrightarrow>
            first_binding (bindings (index_links 0 ls Map.empty) ls ns) (bound_name (ns ! j)) =
              Some (a, b, c) \<longrightarrow>
            node_id (ns ! j) = Some nid \<longrightarrow>
            k < nports ns j \<longrightarrow> lid \<in> set (links_at ns j k) \<longrightarrow>
            index_links 0 ls Map.empty lid = Some li \<longrightarrow>
            (distinct (map node_id ns) \<longrightarrow>
               (bound_name (ns ! j), lid, nid, a) \<in> set (rewired s)) \<and>
            (off_get_ports ns a b \<longrightarrow>
             readers_agree (first_binding (bindings (index_links 0 ls Map.empty) ls ns)) ns lid
               (a, b, c) \<longrightarrow>
               st_links s ! li = (ls ! li)\<lparr>from_node := a, from_slot := b, ltype := c\<rparr>))"
proof -
  let ?lm = "index_links 0 ls Map.empty"
  let ?s0 = "\<lparr>st_nodes = ns, st_links = ls, rewired = [], skipped_gets = []\<rparr>"
  from rp ns ls obtain nbi where nbi: "index_nodes 0 ns Map.empty = Inr nbi"
    and ne: "links_nonempty ls"
    and gp: "get_pass nbi ?lm nts ?s0 = Inr s"
    by (auto elim!: rewrite_phase_InrD)
  have lmok: "link_map_ok ?lm ls" by (rule index_links_sound [OF ne])
  have nbok: "nodes_by_id_ok nbi ns" by (rule index_nodes_sound [OF nbi])
  have 1: "nts = first_binding (bindings ?lm ls ns)"
    and 2: "cfs = divergent (bindings ?lm ls ns)"
    by (rule rewrite_phase_table [OF rp ns ls])+
  have "(\<forall>e \<in> set (rewired s). \<exists>b c. nts (fst e) = Some (snd (snd (snd e)), b, c)) \<and>
      same_frame ns ls s"
    by (rule get_pass_keeps [OF steps_keep_table _ gp]) simp
  then have 3: "\<forall>e \<in> set (rewired s). \<exists>b c. nts (fst e) = Some (snd (snd (snd e)), b, c)"
    by simp
  have 4: "(distinct (map node_id ns) \<longrightarrow>
               (bound_name (ns ! j), lid, nid, a) \<in> set (rewired s)) \<and>
            (off_get_ports ns a b \<longrightarrow> readers_agree nts ns lid (a, b, c) \<longrightarrow>
               st_links s ! li = (ls ! li)\<lparr>from_node := a, from_slot := b, ltype := c\<rparr>)"
    if j: "j < length ns" "node_type (ns ! j) = VStr ''GetNode''"
      "nts (bound_name (ns ! j)) = Some (a, b, c)" "node_id (ns ! j) = Some nid"
      and k: "k < nports ns j" "lid \<in> set (links_at ns j k)" and li: "?lm lid = Some li"
    for j k lid li a b c nid
  proof (intro conjI impI)
    assume dist: "distinct (map node_id ns)"
    have ex: "ids_exact nbi ns" by (rule index_nodes_exact [OF nbi dist])
    have "(bound_name (ns ! j), lid, nid, fst (a, b, c)) \<in> set (rewired s)"
      by (rule get_pass_traced [OF lmok li ex j(1-3) k(1) j(4) k(2) gp])
    then show "(bound_name (ns ! j), lid, nid, a) \<in> set (rewired s)" by simp
  next
    assume off: "off_get_ports ns a b" and agree: "readers_agree nts ns lid (a, b, c)"
    show "st_links s ! li = (ls ! li)\<lparr>from_node := a, from_slot := b, ltype := c\<rparr>"
      by (rule rewrite_phase_settles(2) [OF rp ns ls nbi j(1-3) k li
            off_get_ports_beside [OF nbok off] agree])
  qed
  show ?thesis using 1 2 3 4 unfolding 1 [symmetric] by blast
qed

theorem first_binding_wins_witness:
  "\<exists>nts cfs s.
     rewrite_phase conflict_workflow = Inr (nts, cfs, s) \<and>
     nts (VStr ''X'') = Some (VInt 5, 0, VStr ''IMAGE'') \<and>
     cfs = [(VStr ''X'', (VInt 5, 0, VStr ''IMAGE''), (VInt 6, 0, VStr ''IMAGE''), VInt 7)] \<and>
     distinct (map node_id conflict_nodes) \<and>
     off_get_ports conflict_nodes (VInt 5) 0 \<and>
     readers_agree nts conflict_nodes (VInt 20) (VInt 5, 0, VStr ''IMAGE'') \<and>
     (VStr ''X'', VInt 20, VInt 2, VInt 5) \<in> set (rewired s) \<and>
     st_links s ! 2 = mk_link 20 5 0 3 0 ''IMAGE''"
proof -
  have ns: "wf_nodes conflict_workflow = Present conflict_nodes"
    and ls: "wf_links conflict_workflow = Present conflict_links"
    by (simp_all add: conflict_workflow_def)
  have "ids_present conflict_nodes" "outputs_listed conflict_nodes" "links_six conflict_links"
    by (simp_all add: conflict_nodes_def conflict_links_def mk_node_def mk_link_def
        ids_present_def outputs_listed_def links_six_def)
  then obtain nts cfs s where rp: "rewrite_phase conflict_workflow = Inr (nts, cfs, s)"
    using rewrite_phase_returns [OF ns ls] by blast
  let ?bs = "[(VStr ''X'', (VInt 5, 0, VStr ''IMAGE''), Some (VInt 1)),
              (VStr ''X'', (VInt 6, 0, VStr ''IMAGE''), Some (VInt 7))]"
  have bs: "bindings (index_links 0 conflict_links Map.empty) conflict_links conflict_nodes = ?bs"
    by code_simp
  have dv: "divergent ?bs =
      [(VStr ''X'', (VInt 5, 0, VStr ''IMAGE''), (VInt 6, 0, VStr ''IMAGE''), VInt 7)]"
    by code_simp
  note main = first_binding_wins [OF rp ns ls, unfolded bs]
  have nts: "nts = first_binding ?bs" using main by simp
  have x: "nts (VStr ''X'') = Some (VInt 5, 0, VStr ''IMAGE'')"
    by (simp add: nts first_binding_def)
  have j: "4 < length conflict_nodes" "node_type (conflict_nodes ! 4) = VStr ''GetNode''"
    "first_binding ?bs (bound_name (conflict_nodes ! 4)) = Some (VInt 5, 0, VStr ''IMAGE'')"
    "node_id (conflict_nodes ! 4) = Some (VInt 2)"
    by (simp_all add: conflict_nodes_def mk_node_def first_binding_def bound_name_def)
  have k: "0 < nports conflict_nodes 4" "VInt 20 \<in> set (links_at conflict_nodes 4 0)"
    by (simp_all add: conflict_nodes_def mk_node_def nports_def links_at_def node_outputs_def
        port_links_def)
  have li: "index_links 0 conflict_links Map.empty (VInt 20) = Some 2"
    by (simp add: conflict_links_def mk_link_def)
  have dist: "distinct (map node_id conflict_nodes)"
    by (simp add: conflict_nodes_def mk_node_def)
  have off: "off_get_ports conflict_nodes (VInt 5) 0"
    by (simp add: off_get_ports_def conflict_nodes_def mk_node_def)
  have agree: "readers_agree (first_binding ?bs) conflict_nodes (VInt 20) (VInt 5, 0, VStr ''IMAGE'')"
    unfolding readers_agree_def
    by (auto simp: first_binding_def conflict_nodes_def mk_node_def bound_name_def
        less_Suc_eq numeral_eq_Suc nth_Cons')
  have nm: "bound_name (conflict_nodes ! 4) = VStr ''X''"
    by (simp add: conflict_nodes_def mk_node_def bound_name_def)
  have lk: "(conflict_links ! 2)\<lparr>from_node := VInt 5, from_slot := 0, ltype := VStr ''IMAGE''\<rparr> =
      mk_link 20 5 0 3 0 ''IMAGE''"
    by (simp add: conflict_links_def mk_link_def)
  from main j k li dist off agree
  have "(bound_name (conflict_nodes ! 4), VInt 20, VInt 2, VInt 5) \<in> set (rewired s) \<and>
    st_links s ! 2 =
      (conflict_links ! 2)\<lparr>from_node := VInt 5, from_slot := 0, ltype := VStr ''IMAGE''\<rparr>"
    by blast
  then show ?thesis using rp x main dv dist off agree nm lk nts by auto
qed

text \<open>In the shadow workflow the name Y is bound by two SetNodes, first to
  (6, 0, IMAGE).  The GetNode at position 7 reads Y and has link 20, which is in the link
  map, on its port 0.  The GetNode at position 6, which reads X and has the same id and
  the same link id on its port, is visited first: it rewrites link 20 to the source of X
  and \<open>remove_output_link\<close> takes the link id off the port of the other GetNode.  Link 20
  ends with the triple of X, and the only rewrite of the pass is the one for X.\<close>

theorem first_binding_wins_counterexample:
  "node_type (shadow_nodes ! 7) = VStr ''GetNode'' \<and>
   bound_name (shadow_nodes ! 7) = VStr ''Y'' \<and>
   table_after shadow_workflow (VStr ''Y'') = Some (VInt 6, 0, VStr ''IMAGE'') \<and>
   links_at shadow_nodes 7 0 = [VInt 20] \<and>
   index_links 0 shadow_links Map.empty (VInt 20) = Some 3 \<and>
   links_after shadow_workflow ! 3 = mk_link 20 5 0 3 0 ''IMAGE'' \<and>
   trace_after shadow_workflow = [(VStr ''X'', VInt 20, VInt 2, VInt 5)]"
  by code_simp



end
